theory Spec2Isabelle
  imports Complex_Main "HOL-Library.Sublist"
begin

section \<open>The AI service: retry, exponential backoff, rate limiting and model fallback\<close>

text \<open>
  A shallow embedding of the AI service module (\<^verbatim>\<open>src/shared/types/index.ts\<close>, from the
  line \<^verbatim>\<open>AI Service - Gemini API Integration\<close> on). The module's mutable globals
  (\<^verbatim>\<open>primaryModel\<close>, \<^verbatim>\<open>fallbackModels\<close>, \<^verbatim>\<open>currentModelIndex\<close>,
  \<^verbatim>\<open>RATE_LIMIT.lastCallTime\<close>) are fields of one state record that every function takes
  and returns. What the module reads from its environment is in the record too: the clock
  behind \<^verbatim>\<open>Date.now()\<close>, the draws of \<^verbatim>\<open>Math.random()\<close>, and the state of the
  upstream provider that the caller's operation talks to. Counters and indices are natural
  numbers and times are real numbers of milliseconds. The arithmetic of the backoff delay
  is the arithmetic of doubles: every operation rounds its exact result, a result beyond
  the largest double is an infinity, and an undefined result is \<^verbatim>\<open>NaN\<close>.
\<close>

subsection \<open>Configuration constants\<close>

definition MODEL_CHAIN :: "string list" where
  "MODEL_CHAIN = [''gemini-2.5-pro'', ''gemini-2.5-flash'', ''gemini-2.0-flash-exp'', ''gemini-1.5-pro'']"

record retry_config =
  maxRetries :: nat
  baseDelayMs :: real
  maxDelayMs :: real
  backoffMultiplier :: real

definition RETRY_CONFIG :: retry_config where
  "RETRY_CONFIG = \<lparr>maxRetries = 3, baseDelayMs = 1000, maxDelayMs = 30000, backoffMultiplier = 2\<rparr>"

definition minDelayBetweenCallsMs :: real where
  "minDelayBetweenCallsMs = 500"

subsection \<open>Values, events and the module state\<close>

text \<open>A backend handle is opaque to the module; it is identified by the model name it was built for.\<close>

datatype GenerativeModel = GenerativeModel string

text \<open>
  A value thrown by an operation: an \<^verbatim>\<open>Error\<close> instance with its message, or any other
  value, represented by the string that \<^verbatim>\<open>String(value)\<close> yields.
\<close>

datatype thrown = Error string | NonError string

text \<open>
  The three places \<^verbatim>\<open>sleep\<close> is called from, and the observable events of a run: a
  suspension with the requested duration, and one call of the operation with the cursor
  and the backend it ran on and what it threw (\<open>None\<close> when it returned).
\<close>

datatype sleep_site = RateLimit | Backoff | ModelSwitch

datatype event = Slept sleep_site real | Attempt nat GenerativeModel "thrown option"

record 'w state =
  primaryModel :: "GenerativeModel option"
  fallbackModels :: "GenerativeModel list"
  currentModelIndex :: nat
  lastCallTime :: real
  clock :: real
  lags :: "nat \<Rightarrow> nat"
  suspensions :: nat
  randoms :: "nat \<Rightarrow> real"
  draws :: nat
  rounding :: "real \<Rightarrow> real"
  trace :: "event list"
  world :: 'w

text \<open>
  \<open>clock\<close> is what \<^verbatim>\<open>Date.now()\<close> reads. Time passes only while the module is
  suspended in an \<^verbatim>\<open>await\<close>: the \<open>n\<close>-th suspension lasts \<open>lags s n\<close> milliseconds
  longer than what was asked for (a timer never fires early, the operation takes some time).
  \<open>randoms s n\<close> is the \<open>n\<close>-th value \<^verbatim>\<open>Math.random()\<close> returns. \<open>rounding\<close> takes the
  exact result of an arithmetic operation to the double the machine stores for it, as if
  the exponent range were unbounded. \<open>trace\<close> records the events in order and is never
  read by the module.
\<close>

definition Date_now :: "'w state \<Rightarrow> real" where
  "Date_now s = clock s"

definition Math_random :: "'w state \<Rightarrow> real \<times> 'w state" where
  "Math_random s = (randoms s (draws s), s\<lparr>draws := Suc (draws s)\<rparr>)"

definition sleep :: "sleep_site \<Rightarrow> real \<Rightarrow> 'w state \<Rightarrow> 'w state" where
  "sleep site ms s =
     s\<lparr>clock := clock s + max ms 0 + real (lags s (suspensions s)),
       suspensions := Suc (suspensions s),
       trace := trace s @ [Slept site ms]\<rparr>"

subsection \<open>Numbers\<close>

text \<open>
  A JavaScript number: a finite double, an infinity or \<^verbatim>\<open>NaN\<close>. \<open>to_double\<close> stores an
  exact result: it is rounded, and a rounded value beyond \<open>MAX_VALUE\<close> overflows to an
  infinity. Multiplication, addition, \<^verbatim>\<open>Math.pow\<close> with a natural exponent and
  \<^verbatim>\<open>Math.min\<close> follow IEEE 754 on the special values (the sign of a zero is not kept).
\<close>

datatype js_number = Num real | PosInfinity | NegInfinity | NaN

definition MAX_VALUE :: real where
  "MAX_VALUE = (2 - 1 / 2 ^ 52) * 2 ^ 1023"

definition to_double :: "(real \<Rightarrow> real) \<Rightarrow> real \<Rightarrow> js_number" where
  "to_double fl x =
     (if fl x > MAX_VALUE then PosInfinity
      else if fl x < - MAX_VALUE then NegInfinity
      else Num (fl x))"

fun js_times_infinity :: "real \<Rightarrow> bool \<Rightarrow> js_number" where
  "js_times_infinity x positive =
     (if x = 0 then NaN
      else if (0 < x) = positive then PosInfinity else NegInfinity)"

fun js_mul :: "(real \<Rightarrow> real) \<Rightarrow> js_number \<Rightarrow> js_number \<Rightarrow> js_number" where
  "js_mul fl NaN b = NaN"
| "js_mul fl a NaN = NaN"
| "js_mul fl (Num x) (Num y) = to_double fl (x * y)"
| "js_mul fl (Num x) PosInfinity = js_times_infinity x True"
| "js_mul fl (Num x) NegInfinity = js_times_infinity x False"
| "js_mul fl PosInfinity (Num y) = js_times_infinity y True"
| "js_mul fl NegInfinity (Num y) = js_times_infinity y False"
| "js_mul fl PosInfinity PosInfinity = PosInfinity"
| "js_mul fl NegInfinity NegInfinity = PosInfinity"
| "js_mul fl PosInfinity NegInfinity = NegInfinity"
| "js_mul fl NegInfinity PosInfinity = NegInfinity"

fun js_add :: "(real \<Rightarrow> real) \<Rightarrow> js_number \<Rightarrow> js_number \<Rightarrow> js_number" where
  "js_add fl NaN b = NaN"
| "js_add fl a NaN = NaN"
| "js_add fl (Num x) (Num y) = to_double fl (x + y)"
| "js_add fl PosInfinity NegInfinity = NaN"
| "js_add fl NegInfinity PosInfinity = NaN"
| "js_add fl PosInfinity b = PosInfinity"
| "js_add fl a PosInfinity = PosInfinity"
| "js_add fl NegInfinity b = NegInfinity"
| "js_add fl a NegInfinity = NegInfinity"

definition Math_pow :: "(real \<Rightarrow> real) \<Rightarrow> real \<Rightarrow> nat \<Rightarrow> js_number" where
  "Math_pow fl x n = to_double fl (x ^ n)"

fun Math_min :: "js_number \<Rightarrow> js_number \<Rightarrow> js_number" where
  "Math_min NaN b = NaN"
| "Math_min a NaN = NaN"
| "Math_min NegInfinity b = NegInfinity"
| "Math_min a NegInfinity = NegInfinity"
| "Math_min PosInfinity b = b"
| "Math_min a PosInfinity = a"
| "Math_min (Num x) (Num y) = Num (min x y)"

subsection \<open>Backoff delay\<close>

definition calculateBackoffDelay :: "nat \<Rightarrow> 'w state \<Rightarrow> js_number \<times> 'w state" where
  "calculateBackoffDelay attempt s =
     (let fl = rounding s;
          baseDelay = js_mul fl (Num (baseDelayMs RETRY_CONFIG))
                        (Math_pow fl (backoffMultiplier RETRY_CONFIG) attempt);
          (r, s') = Math_random s;
          jitter = js_mul fl (js_mul fl (Num r) (to_double fl 0.3)) baseDelay
      in (Math_min (js_add fl baseDelay jitter) (Num (maxDelayMs RETRY_CONFIG)), s'))"

text \<open>
  The delay \<^verbatim>\<open>setTimeout\<close> is given, in milliseconds; it takes \<^verbatim>\<open>NaN\<close> and the
  infinities as 0.
\<close>

fun timeout_ms :: "js_number \<Rightarrow> real" where
  "timeout_ms (Num d) = d"
| "timeout_ms PosInfinity = 0"
| "timeout_ms NegInfinity = 0"
| "timeout_ms NaN = 0"

subsection \<open>Rate limiting\<close>

definition enforceRateLimit :: "'w state \<Rightarrow> 'w state" where
  "enforceRateLimit s =
     (let now = Date_now s;
          timeSinceLastCall = now - lastCallTime s;
          s1 = (if timeSinceLastCall < minDelayBetweenCallsMs
                then sleep RateLimit (minDelayBetweenCallsMs - timeSinceLastCall) s
                else s)
      in s1\<lparr>lastCallTime := Date_now s1\<rparr>)"

subsection \<open>Error classification\<close>

text \<open>
  Strings are sequences of 8-bit characters; \<^verbatim>\<open>toLowerCase\<close> maps the letters A to Z to
  a to z and leaves every other character as it is.
\<close>

definition toLowerChar :: "char \<Rightarrow> char" where
  "toLowerChar c =
     (let n = (of_char c :: nat) in if 65 \<le> n \<and> n \<le> 90 then char_of (n + 32) else c)"

definition toLowerCase :: "string \<Rightarrow> string" where
  "toLowerCase str = map toLowerChar str"

fun js_includes :: "string \<Rightarrow> string \<Rightarrow> bool" where
  "js_includes [] k = (k = [])"
| "js_includes (c # cs) k = (prefix k (c # cs) \<or> js_includes cs k)"

fun isRetryableError :: "thrown \<Rightarrow> bool" where
  "isRetryableError (Error msg) =
     (let message = toLowerCase msg in
        js_includes message ''503'' \<or>
        js_includes message ''overloaded'' \<or>
        js_includes message ''429'' \<or>
        js_includes message ''rate limit'' \<or>
        js_includes message ''quota'' \<or>
        js_includes message ''resource exhausted'' \<or>
        js_includes message ''temporarily unavailable'' \<or>
        js_includes message ''network'' \<or>
        js_includes message ''timeout'')"
| "isRetryableError (NonError v) = False"

subsection \<open>The model chain\<close>

datatype exec_error =
    NotInitialized
  | Rethrown thrown
  | AllExhausted string nat nat "thrown option"

definition getNextModel :: "'w state \<Rightarrow> GenerativeModel option \<times> 'w state" where
  "getNextModel s =
     (if currentModelIndex s < length (fallbackModels s)
      then let s' = s\<lparr>currentModelIndex := currentModelIndex s + 1\<rparr>
           in (Some (fallbackModels s' ! (currentModelIndex s' - 1)), s')
      else (None, s))"

definition resetToMainModel :: "'w state \<Rightarrow> 'w state" where
  "resetToMainModel s = s\<lparr>currentModelIndex := 0\<rparr>"

definition getCurrentModel :: "'w state \<Rightarrow> exec_error + GenerativeModel" where
  "getCurrentModel s =
     (case primaryModel s of
        None \<Rightarrow> Inl NotInitialized
      | Some p \<Rightarrow>
          if currentModelIndex s = 0 then Inr p
          else if currentModelIndex s - 1 < length (fallbackModels s)
               then Inr (fallbackModels s ! (currentModelIndex s - 1))
               else Inr p)"

subsection \<open>Rendering of the failure messages\<close>

fun digit_char :: "nat \<Rightarrow> char" where
  "digit_char n = char_of (48 + n)"

fun show_nat :: "nat \<Rightarrow> string" where
  "show_nat n = (if n < 10 then [digit_char n] else show_nat (n div 10) @ [digit_char (n mod 10)])"

declare show_nat.simps [simp del]

fun thrown_message :: "thrown \<Rightarrow> string" where
  "thrown_message (Error msg) = msg"
| "thrown_message (NonError v) = v"

text \<open>
  Every error \<^verbatim>\<open>executeWithRetry\<close> raises is a JavaScript \<^verbatim>\<open>Error\<close>; the constructor
  of \<open>exec_error\<close> records the \<^verbatim>\<open>throw\<close> statement it comes from, and \<open>message_of\<close>
  is the message the caller sees. \<open>AllExhausted\<close> keeps the four values interpolated
  into the final message: the operation name, \<^verbatim>\<open>totalAttempts\<close>,
  \<^verbatim>\<open>currentModelIndex + 1\<close> and \<^verbatim>\<open>lastError\<close>.
\<close>

fun message_of :: "exec_error \<Rightarrow> string" where
  "message_of NotInitialized = ''Gemini not initialized. Please provide an API key first.''"
| "message_of (Rethrown e) = thrown_message e"
| "message_of (AllExhausted operationName totalAttempts models lastError) =
     operationName @ '' failed after '' @ show_nat totalAttempts @
     '' total attempts across '' @ show_nat models @ '' models. Last error: '' @
     (case lastError of None \<Rightarrow> ''undefined'' | Some e \<Rightarrow> thrown_message e)"

subsection \<open>Execution with retry and fallback\<close>

text \<open>
  An operation takes the provider's state and a backend and either returns a result or
  throws; either way it leaves the provider in a new state.
\<close>

type_synonym ('w, 'a) operation = "'w \<Rightarrow> GenerativeModel \<Rightarrow> (thrown + 'a) \<times> 'w"

definition call_operation ::
  "('w, 'a) operation \<Rightarrow> GenerativeModel \<Rightarrow> 'w state \<Rightarrow> (thrown + 'a) \<times> 'w state" where
  "call_operation operation model s =
     (let (r, w') = operation (world s) model
      in (r, s\<lparr>clock := clock s + real (lags s (suspensions s)),
               suspensions := Suc (suspensions s),
               trace := trace s @ [Attempt (currentModelIndex s) model
                                     (case r of Inl e \<Rightarrow> Some e | Inr v \<Rightarrow> None)],
               world := w'\<rparr>))"

text \<open>\<^verbatim>\<open>error instanceof Error ? error : new Error(String(error))\<close>\<close>

fun as_Error :: "thrown \<Rightarrow> thrown" where
  "as_Error (Error msg) = Error msg"
| "as_Error (NonError v) = Error v"

text \<open>
  How a loop is left: by \<^verbatim>\<open>return\<close>, by \<^verbatim>\<open>throw\<close>, or by running to its end (or
  \<^verbatim>\<open>break\<close>) with the current values of \<^verbatim>\<open>totalAttempts\<close> and \<^verbatim>\<open>lastError\<close>.
\<close>

datatype 'a loop_exit = Return 'a | Throw exec_error | Done nat "thrown option"

function retry_loop ::
  "('w, 'a) operation \<Rightarrow> GenerativeModel \<Rightarrow> nat \<Rightarrow> nat \<Rightarrow> thrown option \<Rightarrow> 'w state
     \<Rightarrow> 'a loop_exit \<times> 'w state" where
  "retry_loop operation currentModel retry totalAttempts lastError s =
     (if retry < maxRetries RETRY_CONFIG then
        (let s1 = enforceRateLimit s in
         case call_operation operation currentModel s1 of
           (Inr result, s2) \<Rightarrow> (Return result, s2)
         | (Inl error, s2) \<Rightarrow>
             if isRetryableError error then
               (let (delay, s3) = calculateBackoffDelay retry s2
                in retry_loop operation currentModel (retry + 1) (totalAttempts + 1)
                     (Some (as_Error error)) (sleep Backoff (timeout_ms delay) s3))
             else (Throw (Rethrown (as_Error error)), s2))
      else (Done totalAttempts lastError, s))"
  by pat_completeness auto
termination
  by (relation "measure (\<lambda>(operation, currentModel, retry, totalAttempts, lastError, s).
        maxRetries RETRY_CONFIG - retry)") auto

declare retry_loop.simps [simp del]

text \<open>The retry loop touches neither the chain nor its cursor.\<close>

lemma sleep_fields [simp]:
  "primaryModel (sleep site ms s) = primaryModel s"
  "fallbackModels (sleep site ms s) = fallbackModels s"
  "currentModelIndex (sleep site ms s) = currentModelIndex s"
  "lastCallTime (sleep site ms s) = lastCallTime s"
  "world (sleep site ms s) = world s"
  "trace (sleep site ms s) = trace s @ [Slept site ms]"
  by (simp_all add: sleep_def)

lemma enforceRateLimit_fields [simp]:
  "primaryModel (enforceRateLimit s) = primaryModel s"
  "fallbackModels (enforceRateLimit s) = fallbackModels s"
  "currentModelIndex (enforceRateLimit s) = currentModelIndex s"
  "world (enforceRateLimit s) = world s"
  by (simp_all add: enforceRateLimit_def Let_def)

lemma calculateBackoffDelay_fields:
  assumes "calculateBackoffDelay n s = (d, s')"
  shows "primaryModel s' = primaryModel s"
    and "fallbackModels s' = fallbackModels s"
    and "currentModelIndex s' = currentModelIndex s"
    and "world s' = world s"
    and "trace s' = trace s"
  using assms by (auto simp add: calculateBackoffDelay_def Math_random_def Let_def)

lemma call_operation_fields:
  assumes "call_operation operation m s = (r, s')"
  shows "primaryModel s' = primaryModel s"
    and "fallbackModels s' = fallbackModels s"
    and "currentModelIndex s' = currentModelIndex s"
  using assms by (auto simp add: call_operation_def Let_def split: prod.splits)

lemma retry_loop_done:
  "\<not> retry < maxRetries RETRY_CONFIG \<Longrightarrow>
   retry_loop operation m retry ta le s = (Done ta le, s)"
  by (subst retry_loop.simps) simp

lemma retry_loop_return:
  "retry < maxRetries RETRY_CONFIG \<Longrightarrow>
   call_operation operation m (enforceRateLimit s) = (Inr v, s2) \<Longrightarrow>
   retry_loop operation m retry ta le s = (Return v, s2)"
  by (subst retry_loop.simps) simp

lemma retry_loop_fatal:
  "retry < maxRetries RETRY_CONFIG \<Longrightarrow>
   call_operation operation m (enforceRateLimit s) = (Inl e, s2) \<Longrightarrow>
   \<not> isRetryableError e \<Longrightarrow>
   retry_loop operation m retry ta le s = (Throw (Rethrown (as_Error e)), s2)"
  by (subst retry_loop.simps) simp

lemma retry_loop_retry:
  "retry < maxRetries RETRY_CONFIG \<Longrightarrow>
   call_operation operation m (enforceRateLimit s) = (Inl e, s2) \<Longrightarrow>
   isRetryableError e \<Longrightarrow>
   calculateBackoffDelay retry s2 = (d, s3) \<Longrightarrow>
   retry_loop operation m retry ta le s =
     retry_loop operation m (retry + 1) (ta + 1) (Some (as_Error e)) (sleep Backoff (timeout_ms d) s3)"
  by (subst retry_loop.simps) simp

lemma retry_loop_frame:
  "fallbackModels (snd (retry_loop operation m retry ta le s)) = fallbackModels s \<and>
   primaryModel (snd (retry_loop operation m retry ta le s)) = primaryModel s \<and>
   currentModelIndex (snd (retry_loop operation m retry ta le s)) = currentModelIndex s"
proof (induction operation m retry ta le s rule: retry_loop.induct)
  case (1 operation currentModel retry totalAttempts lastError s)
  show ?case
  proof (cases "retry < maxRetries RETRY_CONFIG")
    case False
    then show ?thesis by (simp add: retry_loop_done)
  next
    case True
    obtain r s2 where c: "call_operation operation currentModel (enforceRateLimit s) = (r, s2)"
      by (cases "call_operation operation currentModel (enforceRateLimit s)")
    have f2: "fallbackModels s2 = fallbackModels s" "primaryModel s2 = primaryModel s"
       "currentModelIndex s2 = currentModelIndex s"
      using call_operation_fields [OF c] by simp_all
    show ?thesis
    proof (cases r)
      case (Inr v)
      with True c f2 show ?thesis by (simp add: retry_loop_return)
    next
      case (Inl e)
      show ?thesis
      proof (cases "isRetryableError e")
        case False
        with True c f2 Inl show ?thesis by (simp add: retry_loop_fatal)
      next
        case re: True
        obtain d s3 where b: "calculateBackoffDelay retry s2 = (d, s3)"
          by (cases "calculateBackoffDelay retry s2")
        have f3: "fallbackModels s3 = fallbackModels s" "primaryModel s3 = primaryModel s"
             "currentModelIndex s3 = currentModelIndex s"
          using calculateBackoffDelay_fields [OF b] f2 by simp_all
        have step: "retry_loop operation currentModel retry totalAttempts lastError s =
            retry_loop operation currentModel (retry + 1) (totalAttempts + 1)
              (Some (as_Error e)) (sleep Backoff (timeout_ms d) s3)"
          using True c Inl re b by (simp add: retry_loop_retry)
        from "1.IH" [OF True refl c [symmetric] _ re b [symmetric]] Inl
        show ?thesis using f3 by (simp add: step)
      qed
    qed
  qed
qed

lemma getNextModel_fields:
  assumes "getNextModel s = (r, s')"
  shows "primaryModel s' = primaryModel s"
    and "fallbackModels s' = fallbackModels s"
    and "trace s' = trace s"
    and "world s' = world s"
  using assms by (auto simp add: getNextModel_def Let_def split: if_splits)

function model_loop ::
  "('w, 'a) operation \<Rightarrow> nat \<Rightarrow> nat \<Rightarrow> thrown option \<Rightarrow> 'w state \<Rightarrow> 'a loop_exit \<times> 'w state" where
  "model_loop operation modelAttempt totalAttempts lastError s =
     (if modelAttempt \<le> length (fallbackModels s) then
        (case getCurrentModel s of
           Inl e \<Rightarrow> (Throw e, s)
         | Inr currentModel \<Rightarrow>
             (case retry_loop operation currentModel 0 totalAttempts lastError s of
                (Return result, s1) \<Rightarrow> (Return result, s1)
              | (Throw e, s1) \<Rightarrow> (Throw e, s1)
              | (Done totalAttempts' lastError', s1) \<Rightarrow>
                  (case getNextModel s1 of
                     (None, s2) \<Rightarrow> (Done totalAttempts' lastError', s2)
                   | (Some nextModel, s2) \<Rightarrow>
                       model_loop operation (modelAttempt + 1) totalAttempts' lastError'
                         (sleep ModelSwitch 2000 s2))))
      else (Done totalAttempts lastError, s))"
  by pat_completeness auto
termination
proof (relation "measure (\<lambda>(operation, modelAttempt, totalAttempts, lastError, s).
         Suc (length (fallbackModels s)) - modelAttempt)", goal_cases)
  case 1
  show ?case by simp
next
  case (2 operation modelAttempt totalAttempts lastError s currentModel x s1 ta' le' y s2 nextModel)
  have r: "retry_loop operation currentModel 0 totalAttempts lastError s = (Done ta' le', s1)"
    and g: "getNextModel s1 = (Some nextModel, s2)"
    using 2 by simp_all
  have "fallbackModels s1 = fallbackModels s"
    using retry_loop_frame [of operation currentModel 0 totalAttempts lastError s] r by simp
  moreover have "fallbackModels s2 = fallbackModels s1"
    using getNextModel_fields(2) [OF g] .
  ultimately show ?case using 2 by simp
qed

declare model_loop.simps [simp del]

definition executeWithRetry ::
  "('w, 'a) operation \<Rightarrow> string \<Rightarrow> 'w state \<Rightarrow> (exec_error + 'a) \<times> 'w state" where
  "executeWithRetry operation operationName s =
     (case model_loop operation 0 0 None s of
        (Return result, s') \<Rightarrow> (Inr result, s')
      | (Throw e, s') \<Rightarrow> (Inl e, s')
      | (Done totalAttempts lastError, s') \<Rightarrow>
          (let s'' = resetToMainModel s'
           in (Inl (AllExhausted operationName totalAttempts (currentModelIndex s'' + 1) lastError),
               s'')))"

subsection \<open>Sample inputs\<close>

text \<open>
  The state \<^verbatim>\<open>initializeGemini\<close> builds from \<open>MODEL_CHAIN\<close> before it validates: the
  first name is the primary model, the others are the fallbacks, the cursor is on the
  primary. The provider's state is a counter of the calls it has received; every draw of
  \<^verbatim>\<open>Math.random()\<close> is 0 and the arithmetic is exact, as the arithmetic of doubles is on
  the whole numbers of milliseconds that then occur.
\<close>

definition fresh_state :: "nat state" where
  "fresh_state =
     \<lparr>primaryModel = Some (GenerativeModel (MODEL_CHAIN ! 0)),
      fallbackModels = map GenerativeModel (drop 1 MODEL_CHAIN),
      currentModelIndex = 0, lastCallTime = 0, clock = 1000000,
      lags = (\<lambda>n. 0), suspensions = 0, randoms = (\<lambda>n. 0), draws = 0,
      rounding = (\<lambda>x. x), trace = [], world = 0\<rparr>"

text \<open>
  The fresh state with every draw of \<^verbatim>\<open>Math.random()\<close> one half and an arithmetic that
  rounds down to a multiple of 1/1024.
\<close>

definition jitter_state :: "nat state" where
  "jitter_state = fresh_state\<lparr>randoms := (\<lambda>n. 1 / 2), rounding := (\<lambda>x. of_int \<lfloor>x * 1024\<rfloor> / 1024)\<rparr>"

text \<open>The delay before jitter and clamping: \<^verbatim>\<open>baseDelayMs * Math.pow(backoffMultiplier, attempt)\<close>.\<close>

definition exponentialDelay :: "nat \<Rightarrow> real" where
  "exponentialDelay attempt = baseDelayMs RETRY_CONFIG * backoffMultiplier RETRY_CONFIG ^ attempt"

subsection \<open>Views of the chain\<close>

text \<open>
  The chain is the primary model followed by the fallbacks; \<open>advance_times n\<close> calls
  \<^verbatim>\<open>getNextModel\<close> \<open>n\<close> times in a row and collects what each call returns.
\<close>

fun advance_times :: "nat \<Rightarrow> 'w state \<Rightarrow> GenerativeModel option list \<times> 'w state" where
  "advance_times 0 s = ([], s)"
| "advance_times (Suc n) s =
     (case getNextModel s of (r, s') \<Rightarrow>
        (case advance_times n s' of (rs, s'') \<Rightarrow> (r # rs, s'')))"

definition chain_length :: "'w state \<Rightarrow> nat" where
  "chain_length s = 1 + length (fallbackModels s)"

definition chain :: "'w state \<Rightarrow> GenerativeModel list" where
  "chain s = (case primaryModel s of None \<Rightarrow> [] | Some p \<Rightarrow> p # fallbackModels s)"

subsection \<open>The retry policy in the specification's words\<close>

text \<open>
  The keyword table of the policy, and what "the message contains the keyword,
  compared case-insensitively" means: some substring of the message equals the keyword
  up to the case of its letters.
\<close>

definition retryable_keywords :: "string list" where
  "retryable_keywords = [''503'', ''overloaded'', ''429'', ''rate limit'', ''quota'',
      ''resource exhausted'', ''temporarily unavailable'', ''network'', ''timeout'']"

definition contains_ignoring_case :: "string \<Rightarrow> string \<Rightarrow> bool" where
  "contains_ignoring_case message k =
     (\<exists>before w after. message = before @ w @ after \<and> toLowerCase w = toLowerCase k)"

subsection \<open>Views of the trace\<close>

text \<open>
  What a run did, read off its trace: the calls of the operation with the cursor they ran
  at and what they threw, the suspensions requested from one call site, the number of calls
  made at one cursor position, and the events a call added to the trace.
\<close>

fun attempt_outcomes :: "event list \<Rightarrow> (nat \<times> thrown option) list" where
  "attempt_outcomes [] = []"
| "attempt_outcomes (Attempt i m r # evs) = (i, r) # attempt_outcomes evs"
| "attempt_outcomes (Slept site ms # evs) = attempt_outcomes evs"

fun sleeps_at :: "sleep_site \<Rightarrow> event list \<Rightarrow> real list" where
  "sleeps_at site [] = []"
| "sleeps_at site (Slept site' ms # evs) =
     (if site' = site then ms # sleeps_at site evs else sleeps_at site evs)"
| "sleeps_at site (Attempt i m r # evs) = sleeps_at site evs"

definition attempts_on :: "nat \<Rightarrow> event list \<Rightarrow> nat" where
  "attempts_on i evs = length (filter (\<lambda>a. fst a = i) (attempt_outcomes evs))"

definition new_events :: "'w state \<Rightarrow> 'w state \<Rightarrow> event list" where
  "new_events s s' = drop (length (trace s)) (trace s')"

text \<open>
  The backend of every call, with the cursor position it was made at; the number of calls
  made at a position on a backend; the number of calls a backend received.
\<close>

fun attempt_backends :: "event list \<Rightarrow> (nat \<times> GenerativeModel) list" where
  "attempt_backends [] = []"
| "attempt_backends (Attempt i m r # evs) = (i, m) # attempt_backends evs"
| "attempt_backends (Slept site ms # evs) = attempt_backends evs"

definition attempts_at :: "nat \<Rightarrow> GenerativeModel \<Rightarrow> event list \<Rightarrow> nat" where
  "attempts_at i m evs = length (filter (\<lambda>a. a = (i, m)) (attempt_backends evs))"

definition calls_to :: "GenerativeModel \<Rightarrow> event list \<Rightarrow> nat" where
  "calls_to m evs = length (filter (\<lambda>a. snd a = m) (attempt_backends evs))"

text \<open>What one run of the retry loop adds to the trace, by the way the loop is left.\<close>

definition retry_summary ::
  "nat \<Rightarrow> nat \<Rightarrow> nat \<Rightarrow> thrown option \<Rightarrow> 'a loop_exit \<Rightarrow> thrown list \<Rightarrow> event list \<Rightarrow> bool" where
  "retry_summary c retry ta le ex es evs \<longleftrightarrow>
     sleeps_at ModelSwitch evs = [] \<and> length (sleeps_at Backoff evs) = length es \<and>
     (\<forall>e \<in> set es. isRetryableError e) \<and>
     (case ex of
        Done ta' le' \<Rightarrow>
          attempt_outcomes evs = map (\<lambda>e. (c, Some e)) es \<and>
          length es = maxRetries RETRY_CONFIG - retry \<and> ta' = ta + length es \<and>
          le' = (if es = [] then le else Some (as_Error (last es)))
      | Return v \<Rightarrow> attempt_outcomes evs = map (\<lambda>e. (c, Some e)) es @ [(c, None)]
      | Throw x \<Rightarrow>
          (\<exists>e. \<not> isRetryableError e \<and> x = Rethrown (as_Error e) \<and>
               attempt_outcomes evs = map (\<lambda>e. (c, Some e)) es @ [(c, Some e)]))"

text \<open>
  What a run of the model loop that ends by exhaustion has done, from cursor \<open>c\<close> on a
  chain whose last position is \<open>n\<close>: every position from \<open>c\<close> to \<open>n\<close> got its
  \<open>maxRetries\<close> calls and no other position got any, every call threw a retryable
  error, and \<^verbatim>\<open>lastError\<close> is the last of them.
\<close>

definition exhausted_summary ::
  "nat \<Rightarrow> nat \<Rightarrow> nat \<Rightarrow> thrown option \<Rightarrow> nat \<Rightarrow> thrown option \<Rightarrow> event list \<Rightarrow> bool" where
  "exhausted_summary c n ta le ta' le' evs \<longleftrightarrow>
     ta' = ta + (Suc n - c) * maxRetries RETRY_CONFIG \<and>
     length (attempt_outcomes evs) = (Suc n - c) * maxRetries RETRY_CONFIG \<and>
     (\<forall>i. attempts_on i evs = (if c \<le> i \<and> i \<le> n then maxRetries RETRY_CONFIG else 0)) \<and>
     (\<forall>a \<in> set (attempt_outcomes evs). \<exists>e. snd a = Some e \<and> isRetryableError e) \<and>
     le' = (if attempt_outcomes evs = [] then le
            else Some (as_Error (the (snd (last (attempt_outcomes evs)))))) \<and>
     length (sleeps_at ModelSwitch evs) = n - c"

text \<open>An operation that throws a retryable error on every attempt, whatever the backend.\<close>

definition always_retryable :: "('w, 'a) operation \<Rightarrow> bool" where
  "always_retryable operation \<longleftrightarrow>
     (\<forall>w m. \<exists>e. fst (operation w m) = Inl e \<and> isRetryableError e)"

text \<open>
  Sample operations on the call-counting provider: one that always fails with a 503, one
  that fails with a malformed-request error, one that throws a plain string, one that
  answers at once, and one that answers from the fourth call on. \<open>on_last_fallback\<close> is
  the fresh state with the cursor on the last model of the chain.
\<close>

definition always_503 :: "(nat, string) operation" where
  "always_503 w m = (Inl (Error ''503 Service Unavailable''), Suc w)"

definition invalid_argument :: "(nat, string) operation" where
  "invalid_argument w m = (Inl (Error ''invalid argument''), Suc w)"

definition throws_string :: "(nat, string) operation" where
  "throws_string w m = (Inl (NonError ''429 quota exceeded''), Suc w)"

definition answers_ok :: "(nat, string) operation" where
  "answers_ok w m = (Inr ''ok'', Suc w)"

definition answers_fourth_call :: "(nat, string) operation" where
  "answers_fourth_call w m = (if w < 3 then Inl (Error ''model is overloaded'') else Inr ''ok'', Suc w)"

definition on_last_fallback :: "nat state" where
  "on_last_fallback = fresh_state\<lparr>currentModelIndex := 3\<rparr>"

text \<open>Every outcome recorded in the events is what the operation did in some call.\<close>

definition outcomes_of_operation :: "('w, 'a) operation \<Rightarrow> event list \<Rightarrow> bool" where
  "outcomes_of_operation operation evs \<longleftrightarrow>
     (\<forall>a \<in> set (attempt_outcomes evs).
        \<exists>w m. snd a = (case fst (operation w m) of Inl e \<Rightarrow> Some e | Inr v \<Rightarrow> None))"

subsection \<open>Extraction of JSON from a response\<close>

text \<open>
  \<^verbatim>\<open>extractJson\<close> matches two regular expressions against the text and hands a substring
  to \<^verbatim>\<open>JSON.parse\<close>. The two matches are modelled by string functions; \<^verbatim>\<open>JSON.parse\<close>
  is a built-in of the language and is a parameter of the model: a function from strings
  to parsed values, \<open>None\<close> where it throws a \<^verbatim>\<open>SyntaxError\<close>. A text is a list of
  characters with codes below 256. White space is what \<^verbatim>\<open>\s\<close> matches and \<^verbatim>\<open>trim\<close> strips
  among these: tab, line feed, vertical tab, form feed, carriage return, space and the
  no-break space (code 160). \<open>fence\<close> is the triple backquote.
\<close>

datatype extract_error = SyntaxError | NoValidJsonFound

definition fence :: string where
  "fence = [CHR 0x60, CHR 0x60, CHR 0x60]"

definition is_space :: "char \<Rightarrow> bool" where
  "is_space c \<longleftrightarrow> (of_char c :: nat) \<in> {9, 10, 11, 12, 13, 32, 160}"

definition trim :: "string \<Rightarrow> string" where
  "trim str = rev (dropWhile is_space (rev (dropWhile is_space str)))"

text \<open>The text before and after the first occurrence of a pattern.\<close>

fun find_first :: "string \<Rightarrow> string \<Rightarrow> (string \<times> string) option" where
  "find_first pat [] = (if pat = [] then Some ([], []) else None)"
| "find_first pat (c # cs) =
     (if prefix pat (c # cs) then Some ([], drop (length pat) (c # cs))
      else case find_first pat cs of
             None \<Rightarrow> None
           | Some (before, after) \<Rightarrow> Some (c # before, after))"

text \<open>
  The first capture group of the match of the fenced-block expression (a fence, an
  optional \<open>json\<close>, white space, as few characters as possible, a fence), at the
  leftmost fence that has another fence after it. The optional tag and the white space are
  matched greedily; giving them back never helps to find the closing fence, since they
  hold no backquote.
\<close>

definition codeBlockMatch :: "string \<Rightarrow> string option" where
  "codeBlockMatch text =
     (case find_first fence text of
        None \<Rightarrow> None
      | Some (before, rest) \<Rightarrow>
          (let untagged = (if prefix ''json'' rest then drop 4 rest else rest);
               interior = dropWhile is_space untagged
           in case find_first fence interior of
                None \<Rightarrow> None
              | Some (group1, after) \<Rightarrow> Some group1))"

text \<open>
  The match of the brace expression (an opening brace, as many characters as possible, a
  closing brace): from the first opening brace to the last closing brace after it.
\<close>

definition jsonMatch :: "string \<Rightarrow> string option" where
  "jsonMatch text =
     (let from_brace = dropWhile (\<lambda>c. c \<noteq> CHR ''{'') text
      in if CHR ''}'' \<in> set from_brace
         then Some (rev (dropWhile (\<lambda>c. c \<noteq> CHR ''}'') (rev from_brace)))
         else None)"

definition JSON_parse_result :: "'j option \<Rightarrow> extract_error + 'j" where
  "JSON_parse_result r = (case r of None \<Rightarrow> Inl SyntaxError | Some v \<Rightarrow> Inr v)"

definition extractJson :: "(string \<Rightarrow> 'j option) \<Rightarrow> string \<Rightarrow> extract_error + 'j" where
  "extractJson JSON_parse text =
     (case codeBlockMatch text of
        Some group1 \<Rightarrow> JSON_parse_result (JSON_parse (trim group1))
      | None \<Rightarrow>
          (case jsonMatch text of
             Some group0 \<Rightarrow> JSON_parse_result (JSON_parse group0)
           | None \<Rightarrow> Inl NoValidJsonFound))"

text \<open>
  A stand-in for \<^verbatim>\<open>JSON.parse\<close> on the sample inputs: it parses the one document
  \<^verbatim>\<open>{"a":1}\<close> to the object with the key \<open>a\<close> and the value 1, and rejects the other
  strings it is given below, none of which is JSON.
\<close>

definition sample_JSON_parse :: "string \<Rightarrow> (string \<times> int) list option" where
  "sample_JSON_parse str = (if str = ''{\"a\":1}'' then Some [(''a'', 1)] else None)"

text \<open>The interior of a fenced block without its optional \<open>json\<close> tag.\<close>

definition untag :: "string \<Rightarrow> string" where
  "untag body = (if prefix ''json'' body then drop 4 body else body)"

text \<open>
  What the two expressions match, said without the search. \<open>first_occurrence pat str pre rest\<close>:
  the text is \<open>pre\<close>, then the pattern, then \<open>rest\<close>, and the pattern stands nowhere further
  to the left.
\<close>

definition first_occurrence :: "string \<Rightarrow> string \<Rightarrow> string \<Rightarrow> string \<Rightarrow> bool" where
  "first_occurrence pat str pre rest \<longleftrightarrow>
     str = pre @ pat @ rest
     \<and> (\<forall>pre' rest'. str = pre' @ pat @ rest' \<longrightarrow> length pre \<le> length pre')"

text \<open>
  \<open>fenced_block str interior\<close>: the text holds a fenced block whose first capture group is
  \<open>interior\<close>. After the first fence of the text, the optional \<open>json\<close> tag and the white
  space that follows are passed over; the text that comes next holds a fence, and
  \<open>interior\<close> is what stands before the first one.
\<close>

definition fenced_block :: "string \<Rightarrow> string \<Rightarrow> bool" where
  "fenced_block str group1 \<longleftrightarrow>
     (\<exists>pre rest post. first_occurrence fence str pre rest
        \<and> first_occurrence fence (dropWhile is_space (untag rest)) group1 post)"

text \<open>
  \<open>brace_span str object\<close>: the text holds an opening brace and a closing brace after it,
  and \<open>object\<close> runs from the first opening brace of the text to its last closing brace.
\<close>

definition brace_span :: "string \<Rightarrow> string \<Rightarrow> bool" where
  "brace_span str group0 \<longleftrightarrow>
     (\<exists>before mid after. str = before @ ''{'' @ mid @ ''}'' @ after
        \<and> CHR ''{'' \<notin> set before \<and> CHR ''}'' \<notin> set after
        \<and> group0 = ''{'' @ mid @ ''}'')"

section \<open>Verified properties\<close>

subsection \<open>Backoff delay (C4)\<close>

lemma MAX_VALUE_bounds: "2 ^ 1023 \<le> MAX_VALUE" "MAX_VALUE < 2 * 2 ^ 1023"
proof -
  define h :: real where "h = 2 ^ 1023"
  have h: "0 < h" by (simp add: h_def)
  have "1 * h \<le> (2 - 1 / 2 ^ 52) * h" using h by (intro mult_right_mono) simp_all
  then show "2 ^ 1023 \<le> MAX_VALUE" by (simp add: MAX_VALUE_def h_def [symmetric])
  have "(2 - 1 / 2 ^ 52) * h < 2 * h" using h by (intro mult_strict_right_mono) simp_all
  then show "MAX_VALUE < 2 * 2 ^ 1023" by (simp only: MAX_VALUE_def h_def [symmetric])
qed

lemma MAX_VALUE_pos: "0 < MAX_VALUE"
proof -
  have "(0::real) < 2 ^ 1023" by (rule zero_less_power) simp
  then show ?thesis using MAX_VALUE_bounds(1) by linarith
qed


lemma small_le_MAX_VALUE: "x \<le> 2 ^ 16 \<Longrightarrow> x \<le> MAX_VALUE"
proof -
  assume "x \<le> 2 ^ 16"
  also have "(2::real) ^ 16 \<le> 2 ^ 1023" by (intro power_increasing) simp_all
  also note MAX_VALUE_bounds(1)
  finally show ?thesis .
qed

lemma to_double_in_range:
  "- MAX_VALUE \<le> fl x \<Longrightarrow> fl x \<le> MAX_VALUE \<Longrightarrow> to_double fl x = Num (fl x)"
  by (simp add: to_double_def)

lemma to_double_nonneg:
  "0 \<le> fl x \<Longrightarrow> fl x \<le> MAX_VALUE \<Longrightarrow> to_double fl x = Num (fl x)"
  using MAX_VALUE_pos by (intro to_double_in_range) linarith+

lemma to_double_overflow: "MAX_VALUE < fl x \<Longrightarrow> to_double fl x = PosInfinity"
  by (simp add: to_double_def)

lemma calculateBackoffDelay_unfold:
  "fst (calculateBackoffDelay attempt s) =
      Math_min
        (js_add (rounding s)
          (js_mul (rounding s) (Num (baseDelayMs RETRY_CONFIG))
             (Math_pow (rounding s) (backoffMultiplier RETRY_CONFIG) attempt))
          (js_mul (rounding s) (js_mul (rounding s) (Num (randoms s (draws s))) (to_double (rounding s) 0.3))
            (js_mul (rounding s) (Num (baseDelayMs RETRY_CONFIG))
               (Math_pow (rounding s) (backoffMultiplier RETRY_CONFIG) attempt))))
        (Num (maxDelayMs RETRY_CONFIG))"
  by (simp add: calculateBackoffDelay_def Math_random_def Let_def
        del: js_mul.simps js_add.simps Math_min.simps)

lemma fresh_state_backoff:
  "fst (calculateBackoffDelay attempt fresh_state) =
      Math_min
        (js_add (\<lambda>x. x) (js_mul (\<lambda>x. x) (Num 1000) (Math_pow (\<lambda>x. x) 2 attempt))
          (js_mul (\<lambda>x. x) (js_mul (\<lambda>x. x) (Num 0) (to_double (\<lambda>x. x) 0.3))
            (js_mul (\<lambda>x. x) (Num 1000) (Math_pow (\<lambda>x. x) 2 attempt))))
        (Num 30000)"
  unfolding calculateBackoffDelay_unfold
  by (simp add: fresh_state_def RETRY_CONFIG_def del: js_mul.simps js_add.simps Math_min.simps)

lemma zero_jitter_factor: "js_mul (\<lambda>x. x) (Num 0) (to_double (\<lambda>x. x) 0.3) = Num 0"
proof -
  have "(0.3::real) \<le> MAX_VALUE" by (rule small_le_MAX_VALUE) simp
  then have "to_double (\<lambda>x. x) 0.3 = Num 0.3"
    by (intro to_double_nonneg) simp
  moreover have "to_double (\<lambda>x. x) (0 * 0.3) = Num 0"
    using to_double_nonneg [of "\<lambda>x. x" 0] MAX_VALUE_pos by simp
  ultimately show ?thesis by (simp only: js_mul.simps)
qed


lemma clamp_after_jitter:
  fixes b d M :: real
  assumes "0 < b" "b \<le> d" "d \<le> 1.3 * b" "0 < M"
  shows "min b M \<le> min d M" and "min d M \<le> 1.3 * min b M" and "min d M \<le> M"
  using assms by (auto simp add: min_def split: if_splits)

text \<open>
  C4 (as amended). Take an attempt index for which the power, the exponential delay
  \<open>b\<close>, \<open>0.3 * b\<close> and \<open>1.3 * b\<close> are doubles and \<open>1.3 * b\<close> is not beyond the largest
  double (with the source's constants: every attempt index from 0 to 1013), and a draw of
  \<^verbatim>\<open>Math.random()\<close> in \<open>[0, 1)\<close>. Then the delay is a finite number between
  \<open>min b maxDelayMs\<close> and 1.3 times that, and is at most \<open>maxDelayMs\<close>: the jitter only
  adds to the exponential delay, and the clamp is applied after the jitter. What is
  assumed of the rounding holds of round-to-nearest on doubles: it is monotone, it keeps 0,
  and the double it gives for the literal 0.3 is not above 0.3.
\<close>

theorem backoff_delay_bounds:
  fixes s :: "'w state"
  assumes draw: "0 \<le> randoms s (draws s)" "randoms s (draws s) < 1"
    and mono: "\<forall>x y. x \<le> y \<longrightarrow> rounding s x \<le> rounding s y"
    and zero: "rounding s 0 = 0"
    and three_tenths: "rounding s 0.3 \<le> 0.3"
    and power: "rounding s (backoffMultiplier RETRY_CONFIG ^ attempt) = backoffMultiplier RETRY_CONFIG ^ attempt"
    and base: "rounding s (exponentialDelay attempt) = exponentialDelay attempt"
    and jitter_max: "rounding s (0.3 * exponentialDelay attempt) = 0.3 * exponentialDelay attempt"
    and delay_max: "rounding s (1.3 * exponentialDelay attempt) = 1.3 * exponentialDelay attempt"
    and finite: "1.3 * exponentialDelay attempt \<le> MAX_VALUE"
  shows "\<exists>d. fst (calculateBackoffDelay attempt s) = Num d
          \<and> min (exponentialDelay attempt) (maxDelayMs RETRY_CONFIG) \<le> d
          \<and> d \<le> 1.3 * min (exponentialDelay attempt) (maxDelayMs RETRY_CONFIG)
          \<and> d \<le> maxDelayMs RETRY_CONFIG"
proof -
  define fl where "fl = rounding s"
  define r where "r = randoms s (draws s)"
  define p where "p = backoffMultiplier RETRY_CONFIG ^ attempt"
  define b where "b = exponentialDelay attempt"
  define M where "M = maxDelayMs RETRY_CONFIG"
  have m: "x \<le> y \<Longrightarrow> fl x \<le> fl y" for x y using mono by (simp add: fl_def)
  have bp: "b = baseDelayMs RETRY_CONFIG * p" by (simp add: b_def p_def exponentialDelay_def)
  have p1: "1 \<le> p" by (simp add: p_def RETRY_CONFIG_def)
  have b0: "0 < b" and pb: "p \<le> b" using p1 by (simp_all add: bp RETRY_CONFIG_def)
  have fin: "1.3 * b \<le> MAX_VALUE" using finite by (simp add: b_def)
  have M0: "0 < M" by (simp add: M_def RETRY_CONFIG_def)
  \<comment> \<open>the power and the base delay are stored exactly\<close>
  have "fl p = p" using power by (simp add: fl_def p_def)
  then have pw: "Math_pow fl (backoffMultiplier RETRY_CONFIG) attempt = Num p"
    unfolding Math_pow_def p_def [symmetric]
    using p1 pb b0 fin MAX_VALUE_pos by (intro trans [OF to_double_in_range]) auto
  have "fl b = b" using base by (simp add: fl_def b_def)
  then have bd: "js_mul fl (Num (baseDelayMs RETRY_CONFIG)) (Num p) = Num b"
    using b0 fin MAX_VALUE_pos by (simp add: bp [symmetric] to_double_def)
  \<comment> \<open>the literal 0.3 and the jitter factor\<close>
  define c where "c = fl 0.3"
  have c0: "0 \<le> c" using m [of 0 "0.3"] zero by (simp add: c_def fl_def)
  have c1: "c \<le> 0.3" using three_tenths by (simp add: c_def fl_def)
  have "- MAX_VALUE \<le> c" using c0 MAX_VALUE_pos by linarith
  moreover have "c \<le> MAX_VALUE" using c1 by (intro small_le_MAX_VALUE) simp
  ultimately have lit: "to_double fl 0.3 = Num c"
    unfolding c_def by (rule to_double_in_range)
  define q where "q = fl (r * c)"
  have "0 \<le> r * c" using draw(1) c0 by (simp add: r_def)
  then have q0: "0 \<le> q" using m [of 0 "r * c"] zero by (simp add: q_def fl_def)
  have "r * c \<le> c" using draw c0 by (intro mult_left_le_one_le) (simp_all add: r_def)
  then have "r * c \<le> 0.3" using c1 by linarith
  then have "q \<le> fl 0.3" unfolding q_def by (rule m)
  then have q1: "q \<le> 0.3" using three_tenths by (simp add: fl_def)
  have "- MAX_VALUE \<le> q" using q0 MAX_VALUE_pos by linarith
  moreover have "q \<le> MAX_VALUE" using q1 by (intro small_le_MAX_VALUE) simp
  ultimately have fac: "js_mul fl (Num r) (Num c) = Num q"
    unfolding q_def js_mul.simps by (rule to_double_in_range)
  \<comment> \<open>the jitter\<close>
  define j where "j = fl (q * b)"
  have "0 \<le> q * b" using q0 b0 by simp
  then have j0: "0 \<le> j" using m [of 0 "q * b"] zero by (simp add: j_def fl_def)
  have "q * b \<le> 0.3 * b" using q1 b0 by simp
  then have "j \<le> fl (0.3 * b)" unfolding j_def by (rule m)
  then have j1: "j \<le> 0.3 * b" using jitter_max by (simp add: fl_def b_def)
  have jit: "js_mul fl (Num q) (Num b) = Num j"
    using j0 j1 b0 fin MAX_VALUE_pos unfolding j_def js_mul.simps
    by (intro to_double_in_range) (auto simp add: j_def [symmetric])
  \<comment> \<open>the sum\<close>
  define d where "d = fl (b + j)"
  have "fl b \<le> d" unfolding d_def using j0 by (intro m) simp
  then have d0: "b \<le> d" using \<open>fl b = b\<close> by simp
  have "d \<le> fl (1.3 * b)" unfolding d_def using j1 by (intro m) simp
  then have d1: "d \<le> 1.3 * b" using delay_max by (simp add: fl_def b_def)
  have sum: "js_add fl (Num b) (Num j) = Num d"
    using d0 d1 b0 fin MAX_VALUE_pos unfolding d_def js_add.simps
    by (intro to_double_in_range) (auto simp add: d_def [symmetric])
  have "fst (calculateBackoffDelay attempt s) =
      Math_min
        (js_add fl
          (js_mul fl (Num (baseDelayMs RETRY_CONFIG)) (Math_pow fl (backoffMultiplier RETRY_CONFIG) attempt))
          (js_mul fl (js_mul fl (Num r) (to_double fl 0.3))
            (js_mul fl (Num (baseDelayMs RETRY_CONFIG)) (Math_pow fl (backoffMultiplier RETRY_CONFIG) attempt))))
        (Num M)"
    unfolding fl_def r_def M_def by (rule calculateBackoffDelay_unfold)
  also have "\<dots> = Num (min d M)"
    by (simp only: pw bd lit fac jit sum Math_min.simps)
  finally have v: "fst (calculateBackoffDelay attempt s) = Num (min d M)" .
  show ?thesis
    unfolding v b_def [symmetric] M_def [symmetric]
    using clamp_after_jitter [OF b0 d0 d1 M0] by blast
qed


text \<open>
  The third attempt with a draw of one half, under a coarse rounding (down to a multiple
  of 1/1024): the delay is between 4000 and 5200 ms.
\<close>

theorem backoff_delay_bounds_witness:
  "\<exists>d. fst (calculateBackoffDelay 2 jitter_state) = Num d \<and> 4000 \<le> d \<and> d \<le> 5200"
proof -
  have 1: "0 \<le> randoms jitter_state (draws jitter_state)" "randoms jitter_state (draws jitter_state) < 1"
    by (simp_all add: jitter_state_def fresh_state_def)
  have 2: "\<forall>x y. x \<le> y \<longrightarrow> rounding jitter_state x \<le> rounding jitter_state y"
    by (simp add: jitter_state_def fresh_state_def divide_right_mono floor_mono)
  have 3: "rounding jitter_state 0 = 0" "rounding jitter_state 0.3 \<le> 0.3"
    by (simp_all add: jitter_state_def fresh_state_def)
  have e: "exponentialDelay 2 = 4000" "backoffMultiplier RETRY_CONFIG ^ 2 = 4"
    "maxDelayMs RETRY_CONFIG = 30000"
    by (simp_all add: exponentialDelay_def RETRY_CONFIG_def)
  have 4: "rounding jitter_state (backoffMultiplier RETRY_CONFIG ^ 2) = backoffMultiplier RETRY_CONFIG ^ 2"
    "rounding jitter_state (exponentialDelay 2) = exponentialDelay 2"
    "rounding jitter_state (0.3 * exponentialDelay 2) = 0.3 * exponentialDelay 2"
    "rounding jitter_state (1.3 * exponentialDelay 2) = 1.3 * exponentialDelay 2"
    unfolding e by (simp_all add: jitter_state_def fresh_state_def)
  have "(5200::real) \<le> MAX_VALUE" by (rule small_le_MAX_VALUE) simp
  then have 5: "1.3 * exponentialDelay 2 \<le> MAX_VALUE" unfolding e by simp
  from backoff_delay_bounds [OF 1 2 3 4 5]
  show ?thesis unfolding e by auto
qed

text \<open>
  C4 as stated fails: at attempt index 5 with a jitter draw of 0 the exponential delay is
  32000 ms, and the delay returned is 30000 ms, below it. Every number in this run is a
  whole number that a double holds exactly.
\<close>

theorem backoff_below_exponential_counterexample:
  "fst (calculateBackoffDelay 5 fresh_state) = Num 30000 \<and> exponentialDelay 5 = 32000"
proof
  have "Math_pow (\<lambda>x. x) 2 5 = Num 32"
    unfolding Math_pow_def using to_double_nonneg [of "\<lambda>x. x" 32] small_le_MAX_VALUE [of 32] by simp
  moreover have "js_mul (\<lambda>x. x) (Num 1000) (Num 32) = Num 32000"
    using to_double_nonneg [of "\<lambda>x. x" 32000] small_le_MAX_VALUE [of 32000] by simp
  moreover have "js_mul (\<lambda>x. x) (Num 0) (Num 32000) = Num 0"
    using to_double_nonneg [of "\<lambda>x. x" 0] MAX_VALUE_pos by simp
  moreover have "js_add (\<lambda>x. x) (Num 32000) (Num 0) = Num 32000"
    using to_double_nonneg [of "\<lambda>x. x" 32000] small_le_MAX_VALUE [of 32000] by simp
  ultimately show "fst (calculateBackoffDelay 5 fresh_state) = Num 30000"
    unfolding fresh_state_backoff zero_jitter_factor by (simp only: Math_min.simps) simp
  show "exponentialDelay 5 = 32000" by (simp add: exponentialDelay_def RETRY_CONFIG_def)
qed

text \<open>
  Beyond the range of the amended claim the arithmetic overflows: at attempt index 1015
  with a draw of 0 the base delay is infinite, the jitter \<open>0 * Infinity\<close> is \<^verbatim>\<open>NaN\<close>, and
  so is the delay.
\<close>

lemma backoff_overflow_is_NaN:
  "fst (calculateBackoffDelay 1015 fresh_state) = NaN"
proof -
  define P :: real where "P = 2 ^ 1015"
  have "P \<le> 2 ^ 1023" unfolding P_def by (intro power_increasing) simp_all
  then have "P \<le> MAX_VALUE" using MAX_VALUE_bounds(1) by linarith
  moreover have "0 \<le> P" by (simp add: P_def)
  ultimately have "to_double (\<lambda>x. x) P = Num P" by (intro to_double_nonneg)
  then have pw: "Math_pow (\<lambda>x. x) 2 1015 = Num P" by (simp only: Math_pow_def P_def)
  have "(2::real) * 2 ^ 1023 = 2 ^ 9 * 2 ^ 1015"
    by (simp only: power_add [symmetric] power_Suc [symmetric]) simp
  also have "\<dots> \<le> 1000 * P" unfolding P_def by (intro mult_right_mono) simp_all
  finally have "MAX_VALUE < 1000 * P" using MAX_VALUE_bounds(2) by linarith
  then have "to_double (\<lambda>x. x) (1000 * P) = PosInfinity" by (intro to_double_overflow)
  then have inf: "js_mul (\<lambda>x. x) (Num 1000) (Num P) = PosInfinity" by (simp only: js_mul.simps)
  show ?thesis unfolding fresh_state_backoff zero_jitter_factor pw inf by simp
qed

subsection \<open>Advancing and resetting the chain (C7)\<close>

lemma getNextModel_advance:
  assumes "primaryModel s = Some p" and "currentModelIndex s + 1 < chain_length s"
  shows "getNextModel s = (Some (chain s ! (currentModelIndex s + 1)),
                           s\<lparr>currentModelIndex := currentModelIndex s + 1\<rparr>)"
    and "getCurrentModel (s\<lparr>currentModelIndex := currentModelIndex s + 1\<rparr>)
           = Inr (chain s ! (currentModelIndex s + 1))"
  using assms by (simp_all add: getNextModel_def getCurrentModel_def chain_def chain_length_def Let_def)

lemma getNextModel_end:
  assumes "\<not> currentModelIndex s + 1 < chain_length s"
  shows "getNextModel s = (None, s)"
  using assms by (simp add: getNextModel_def chain_length_def)

lemma advance_times_from:
  assumes "currentModelIndex s + n = length (fallbackModels s)"
  shows "fst (advance_times (Suc n) s) = map Some (drop (currentModelIndex s) (fallbackModels s)) @ [None]
       \<and> snd (advance_times (Suc n) s) = s\<lparr>currentModelIndex := length (fallbackModels s)\<rparr>"
  using assms
proof (induction n arbitrary: s)
  case 0
  then show ?case by (simp add: getNextModel_def)
next
  case (Suc n)
  let ?s' = "s\<lparr>currentModelIndex := currentModelIndex s + 1\<rparr>"
  have lt: "currentModelIndex s < length (fallbackModels s)" using Suc.prems by simp
  have g: "getNextModel s = (Some (fallbackModels s ! currentModelIndex s), ?s')"
    using lt by (simp add: getNextModel_def Let_def)
  have ih: "fst (advance_times (Suc n) ?s') = map Some (drop (currentModelIndex ?s') (fallbackModels ?s')) @ [None]
       \<and> snd (advance_times (Suc n) ?s') = ?s'\<lparr>currentModelIndex := length (fallbackModels ?s')\<rparr>"
    by (rule Suc.IH) (use Suc.prems in simp)
  have d: "drop (currentModelIndex s) (fallbackModels s)
         = fallbackModels s ! currentModelIndex s # drop (Suc (currentModelIndex s)) (fallbackModels s)"
    using lt by (simp add: Cons_nth_drop_Suc)
  have u: "advance_times (Suc (Suc n)) s =
        (Some (fallbackModels s ! currentModelIndex s) # fst (advance_times (Suc n) ?s'),
         snd (advance_times (Suc n) ?s'))"
    by (subst advance_times.simps) (simp add: g split: prod.splits)
  show ?case unfolding u using ih d by simp
qed

text \<open>
  C7. On a chain of \<open>N\<close> backends (the primary and \<open>N - 1\<close> fallbacks),
  \<^verbatim>\<open>getNextModel\<close> increments the cursor and returns the new current backend exactly
  when \<open>cursor + 1 < N\<close>, and otherwise returns null and leaves the state unchanged.
  From cursor 0, \<open>N\<close> calls in a row return the \<open>N - 1\<close> fallbacks in order and then
  null, and after \<^verbatim>\<open>resetToMainModel\<close> the current model is the primary again.
\<close>

theorem advance_and_reset:
  assumes "primaryModel s = Some p"
  shows "(currentModelIndex s + 1 < chain_length s \<longrightarrow>
            (\<exists>m. getNextModel s = (Some m, s\<lparr>currentModelIndex := currentModelIndex s + 1\<rparr>)
               \<and> getCurrentModel (s\<lparr>currentModelIndex := currentModelIndex s + 1\<rparr>) = Inr m))
       \<and> (\<not> currentModelIndex s + 1 < chain_length s \<longrightarrow> getNextModel s = (None, s))
       \<and> (currentModelIndex s = 0 \<longrightarrow>
            fst (advance_times (chain_length s) s) = map Some (fallbackModels s) @ [None]
          \<and> length (map Some (fallbackModels s)) = chain_length s - 1
          \<and> currentModelIndex (snd (advance_times (chain_length s) s)) = chain_length s - 1
          \<and> getCurrentModel (resetToMainModel (snd (advance_times (chain_length s) s))) = Inr p)"
proof (intro conjI impI)
  assume "currentModelIndex s + 1 < chain_length s"
  then show "\<exists>m. getNextModel s = (Some m, s\<lparr>currentModelIndex := currentModelIndex s + 1\<rparr>)
               \<and> getCurrentModel (s\<lparr>currentModelIndex := currentModelIndex s + 1\<rparr>) = Inr m"
    using getNextModel_advance [OF assms] by blast
next
  assume "\<not> currentModelIndex s + 1 < chain_length s"
  then show "getNextModel s = (None, s)" by (rule getNextModel_end)
next
  assume z: "currentModelIndex s = 0"
  have a: "fst (advance_times (Suc (length (fallbackModels s))) s)
             = map Some (drop (currentModelIndex s) (fallbackModels s)) @ [None]
       \<and> snd (advance_times (Suc (length (fallbackModels s))) s)
             = s\<lparr>currentModelIndex := length (fallbackModels s)\<rparr>"
    by (rule advance_times_from) (simp add: z)
  show "fst (advance_times (chain_length s) s) = map Some (fallbackModels s) @ [None]"
    using a z by (simp add: chain_length_def)
  show "length (map Some (fallbackModels s)) = chain_length s - 1"
    by (simp add: chain_length_def)
  show "currentModelIndex (snd (advance_times (chain_length s) s)) = chain_length s - 1"
    using a by (simp add: chain_length_def)
  show "getCurrentModel (resetToMainModel (snd (advance_times (chain_length s) s))) = Inr p"
    using a assms by (simp add: chain_length_def resetToMainModel_def getCurrentModel_def)
qed

text \<open>The four-model chain of the source: three advances, then null, then reset.\<close>

theorem advance_and_reset_witness:
  "fst (getNextModel fresh_state) = Some (GenerativeModel ''gemini-2.5-flash'')
   \<and> getNextModel (fresh_state\<lparr>currentModelIndex := 3\<rparr>) = (None, fresh_state\<lparr>currentModelIndex := 3\<rparr>)
   \<and> fst (advance_times 4 fresh_state) =
        [Some (GenerativeModel ''gemini-2.5-flash''), Some (GenerativeModel ''gemini-2.0-flash-exp''),
         Some (GenerativeModel ''gemini-1.5-pro''), None]
   \<and> getCurrentModel (resetToMainModel (snd (advance_times 4 fresh_state)))
        = Inr (GenerativeModel ''gemini-2.5-pro'')"
proof -
  have p: "primaryModel fresh_state = Some (GenerativeModel ''gemini-2.5-pro'')"
    by (simp add: fresh_state_def MODEL_CHAIN_def)
  have p3: "primaryModel (fresh_state\<lparr>currentModelIndex := 3\<rparr>) = Some (GenerativeModel ''gemini-2.5-pro'')"
    by (simp add: fresh_state_def MODEL_CHAIN_def)
  have n: "chain_length fresh_state = 4" "chain_length (fresh_state\<lparr>currentModelIndex := 3\<rparr>) = 4"
    by (simp_all add: chain_length_def fresh_state_def MODEL_CHAIN_def)
  have c: "currentModelIndex fresh_state = 0" by (simp add: fresh_state_def)
  have f: "fallbackModels fresh_state = [GenerativeModel ''gemini-2.5-flash'',
       GenerativeModel ''gemini-2.0-flash-exp'', GenerativeModel ''gemini-1.5-pro'']"
    by (simp add: fresh_state_def MODEL_CHAIN_def)
  have g: "getCurrentModel (fresh_state\<lparr>currentModelIndex := 1\<rparr>) = Inr (GenerativeModel ''gemini-2.5-flash'')"
    by (simp add: getCurrentModel_def fresh_state_def MODEL_CHAIN_def)
  from advance_and_reset [OF p] advance_and_reset [OF p3] g
  show ?thesis by (auto simp add: n c f)
qed

subsection \<open>Error classification (C6)\<close>

lemma js_includes_iff: "js_includes s k \<longleftrightarrow> (\<exists>before after. s = before @ k @ after)"
proof (induction s)
  case Nil
  then show ?case by auto
next
  case (Cons c cs)
  show ?case
  proof
    assume "js_includes (c # cs) k"
    then consider "prefix k (c # cs)" | "js_includes cs k" by auto
    then show "\<exists>before after. c # cs = before @ k @ after"
    proof cases
      case 1
      then obtain after where "c # cs = k @ after" by (auto simp: prefix_def)
      then have "c # cs = [] @ k @ after" by simp
      then show ?thesis by blast
    next
      case 2
      then obtain before after where "cs = before @ k @ after" using Cons.IH by blast
      then have "c # cs = (c # before) @ k @ after" by simp
      then show ?thesis by blast
    qed
  next
    assume "\<exists>before after. c # cs = before @ k @ after"
    then obtain before after where e: "c # cs = before @ k @ after" by blast
    show "js_includes (c # cs) k"
    proof (cases before)
      case Nil
      then have "prefix k (c # cs)" using e by (simp add: prefix_def)
      then show ?thesis by simp
    next
      case (Cons b bs)
      then have "cs = bs @ k @ after" using e by simp
      then have "js_includes cs k" using Cons.IH by blast
      then show ?thesis by simp
    qed
  qed
qed

lemma toLowerCase_append: "toLowerCase (a @ b) = toLowerCase a @ toLowerCase b"
  by (simp add: toLowerCase_def)

lemma includes_lower_iff:
  assumes "toLowerCase k = k"
  shows "js_includes (toLowerCase message) k \<longleftrightarrow> contains_ignoring_case message k"
proof
  assume "js_includes (toLowerCase message) k"
  then obtain b a where "toLowerCase message = b @ k @ a" using js_includes_iff by blast
  then have "map toLowerChar message = b @ k @ a" by (simp add: toLowerCase_def)
  then obtain b' r where m: "message = b' @ r" and r: "map toLowerChar r = k @ a"
    by (metis map_eq_append_conv)
  from r obtain w a' where r': "r = w @ a'" and w: "map toLowerChar w = k"
    by (metis map_eq_append_conv)
  have "message = b' @ w @ a'" using m r' by simp
  moreover have "toLowerCase w = toLowerCase k" using w assms by (simp add: toLowerCase_def)
  ultimately show "contains_ignoring_case message k"
    unfolding contains_ignoring_case_def by blast
next
  assume "contains_ignoring_case message k"
  then obtain b w a where "message = b @ w @ a" and "toLowerCase w = k"
    unfolding contains_ignoring_case_def using assms by auto
  then have "toLowerCase message = toLowerCase b @ k @ toLowerCase a"
    by (simp add: toLowerCase_append)
  then show "js_includes (toLowerCase message) k" using js_includes_iff by blast
qed

lemma lower_kw:
  "toLowerCase ''503'' = ''503''" "toLowerCase ''overloaded'' = ''overloaded''"
  "toLowerCase ''429'' = ''429''" "toLowerCase ''rate limit'' = ''rate limit''"
  "toLowerCase ''quota'' = ''quota''" "toLowerCase ''resource exhausted'' = ''resource exhausted''"
  "toLowerCase ''temporarily unavailable'' = ''temporarily unavailable''"
  "toLowerCase ''network'' = ''network''" "toLowerCase ''timeout'' = ''timeout''"
  by code_simp+

lemma isRetryableError_keywords:
  "isRetryableError (Error message) \<longleftrightarrow>
     (\<exists>k \<in> set retryable_keywords. contains_ignoring_case message k)"
  by (simp add: retryable_keywords_def Let_def includes_lower_iff [OF lower_kw(1)]
      includes_lower_iff [OF lower_kw(2)] includes_lower_iff [OF lower_kw(3)]
      includes_lower_iff [OF lower_kw(4)] includes_lower_iff [OF lower_kw(5)]
      includes_lower_iff [OF lower_kw(6)] includes_lower_iff [OF lower_kw(7)]
      includes_lower_iff [OF lower_kw(8)] includes_lower_iff [OF lower_kw(9)])

lemma retryable_if_contains:
  assumes "k \<in> set retryable_keywords" and "toLowerCase w = k"
  shows "isRetryableError (Error (before @ w @ after))"
proof -
  have "toLowerCase k = k"
    using assms(1) lower_kw by (auto simp add: retryable_keywords_def)
  then have "toLowerCase w = toLowerCase k" using assms(2) by simp
  then have "contains_ignoring_case (before @ w @ after) k"
    unfolding contains_ignoring_case_def by blast
  then show ?thesis using assms(1) isRetryableError_keywords by blast
qed

text \<open>
  C6. For every \<^verbatim>\<open>Error\<close> value, \<^verbatim>\<open>isRetryableError\<close> returns true if and only if
  its message contains, compared case-insensitively, one of the nine keywords. In
  particular it is true for every message containing \<open>429\<close>, \<open>Quota exceeded\<close> or
  \<open>network error\<close>, and false for \<open>invalid argument\<close> and \<open>permission denied\<close>.
\<close>

theorem isRetryableError_keyword_match:
  "(isRetryableError (Error message) \<longleftrightarrow>
      (\<exists>k \<in> set retryable_keywords. contains_ignoring_case message k))
   \<and> (\<forall>before after. isRetryableError (Error (before @ ''429'' @ after)))
   \<and> (\<forall>before after. isRetryableError (Error (before @ ''Quota exceeded'' @ after)))
   \<and> (\<forall>before after. isRetryableError (Error (before @ ''network error'' @ after)))
   \<and> \<not> isRetryableError (Error ''invalid argument'')
   \<and> \<not> isRetryableError (Error ''permission denied'')"
proof (intro conjI allI)
  show "isRetryableError (Error message) \<longleftrightarrow>
      (\<exists>k \<in> set retryable_keywords. contains_ignoring_case message k)"
    by (rule isRetryableError_keywords)
next
  fix before after :: string
  have k: "''429'' \<in> set retryable_keywords" by (simp add: retryable_keywords_def)
  show "isRetryableError (Error (before @ ''429'' @ after))"
    by (rule retryable_if_contains [OF k]) code_simp
next
  fix before after :: string
  have k: "''quota'' \<in> set retryable_keywords" by (simp add: retryable_keywords_def)
  have l: "toLowerCase ''Quota'' = ''quota''" by code_simp
  have "isRetryableError (Error (before @ ''Quota'' @ ('' exceeded'' @ after)))"
    by (rule retryable_if_contains [OF k l])
  then show "isRetryableError (Error (before @ ''Quota exceeded'' @ after))" by simp
next
  fix before after :: string
  have k: "''network'' \<in> set retryable_keywords" by (simp add: retryable_keywords_def)
  have l: "toLowerCase ''network'' = ''network''" by code_simp
  have "isRetryableError (Error (before @ ''network'' @ ('' error'' @ after)))"
    by (rule retryable_if_contains [OF k l])
  then show "isRetryableError (Error (before @ ''network error'' @ after))" by simp
next
  show "\<not> isRetryableError (Error ''invalid argument'')" by code_simp
next
  show "\<not> isRetryableError (Error ''permission denied'')" by code_simp
qed

text \<open>Two provider messages that are retryable and one that is not.\<close>

theorem isRetryableError_keyword_match_witness:
  "isRetryableError (Error ''Error: [503 Service Unavailable] The model is OVERLOADED'')
   \<and> contains_ignoring_case ''Error: [503 Service Unavailable] The model is OVERLOADED'' ''overloaded''
   \<and> isRetryableError (Error ''HTTP 429 Too Many Requests'')
   \<and> \<not> isRetryableError (Error ''invalid argument'')"
proof -
  have c: "contains_ignoring_case ''Error: [503 Service Unavailable] The model is OVERLOADED'' ''overloaded''"
  proof -
    have "''Error: [503 Service Unavailable] The model is OVERLOADED''
        = ''Error: [503 Service Unavailable] The model is '' @ ''OVERLOADED'' @ []" by simp
    moreover have "toLowerCase ''OVERLOADED'' = toLowerCase ''overloaded''" by code_simp
    ultimately show ?thesis unfolding contains_ignoring_case_def by blast
  qed
  have k: "''overloaded'' \<in> set retryable_keywords" by (simp add: retryable_keywords_def)
  note m = isRetryableError_keyword_match [of "''Error: [503 Service Unavailable] The model is OVERLOADED''"]
  have a: "isRetryableError (Error ''Error: [503 Service Unavailable] The model is OVERLOADED'')"
    using m c k by blast
  have "\<forall>before after. isRetryableError (Error (before @ ''429'' @ after))"
    using m by (elim conjE)
  then have "isRetryableError (Error (''HTTP '' @ ''429'' @ '' Too Many Requests''))"
    by (elim allE)
  then have b: "isRetryableError (Error ''HTTP 429 Too Many Requests'')" by simp
  have d: "\<not> isRetryableError (Error ''invalid argument'')"
    using m by (elim conjE)
  show ?thesis using a b c d by (intro conjI)
qed

subsection \<open>What the retry loop does\<close>

lemma attempt_outcomes_append [simp]:
  "attempt_outcomes (xs @ ys) = attempt_outcomes xs @ attempt_outcomes ys"
  by (induction xs rule: attempt_outcomes.induct) simp_all

lemma sleeps_at_append [simp]:
  "sleeps_at site (xs @ ys) = sleeps_at site xs @ sleeps_at site ys"
  by (induction site xs rule: sleeps_at.induct) simp_all

lemma new_events_append [simp]: "trace s' = trace s @ evs \<Longrightarrow> new_events s s' = evs"
  by (simp add: new_events_def)

lemma enforceRateLimit_trace:
  "\<exists>rl. trace (enforceRateLimit s) = trace s @ rl \<and> attempt_outcomes rl = []
        \<and> sleeps_at Backoff rl = [] \<and> sleeps_at ModelSwitch rl = []"
  by (simp add: enforceRateLimit_def Let_def)

lemma call_operation_result:
  assumes "call_operation operation m s = (r, s')"
  shows "r = fst (operation (world s) m)"
    and "world s' = snd (operation (world s) m)"
    and "trace s' = trace s @ [Attempt (currentModelIndex s) m (case r of Inl e \<Rightarrow> Some e | Inr v \<Rightarrow> None)]"
  using assms by (auto simp add: call_operation_def Let_def split: prod.splits)

lemma retry_loop_trace:
  "\<exists>es evs. trace (snd (retry_loop operation m retry ta le s)) = trace s @ evs \<and>
     retry_summary (currentModelIndex s) retry ta le (fst (retry_loop operation m retry ta le s)) es evs"
proof (induction operation m retry ta le s rule: retry_loop.induct)
  case (1 operation currentModel retry totalAttempts lastError s)
  let ?c = "currentModelIndex s"
  show ?case
  proof (cases "retry < maxRetries RETRY_CONFIG")
    case False
    have "retry_summary ?c retry totalAttempts lastError (Done totalAttempts lastError) [] []"
      using False by (simp add: retry_summary_def)
    then show ?thesis using False by (metis retry_loop_done append_Nil2 fst_conv snd_conv)
  next
    case True
    obtain r s2 where c: "call_operation operation currentModel (enforceRateLimit s) = (r, s2)"
      by (cases "call_operation operation currentModel (enforceRateLimit s)")
    obtain rl where rl: "trace (enforceRateLimit s) = trace s @ rl" "attempt_outcomes rl = []"
        "sleeps_at Backoff rl = []" "sleeps_at ModelSwitch rl = []"
      using enforceRateLimit_trace by blast
    have t2: "trace s2 = trace s @ rl @ [Attempt ?c currentModel (case r of Inl e \<Rightarrow> Some e | Inr v \<Rightarrow> None)]"
      using call_operation_result(3) [OF c] rl(1) by simp
    show ?thesis
    proof (cases r)
      case (Inr v)
      have "retry_summary ?c retry totalAttempts lastError (Return v) []
              (rl @ [Attempt ?c currentModel None])"
        using rl by (simp add: retry_summary_def)
      moreover have "retry_loop operation currentModel retry totalAttempts lastError s = (Return v, s2)"
        using True c Inr by (simp add: retry_loop_return)
      ultimately show ?thesis using t2 Inr by (metis fst_conv snd_conv sum.simps(6))
    next
      case (Inl e)
      show ?thesis
      proof (cases "isRetryableError e")
        case False
        have "retry_summary ?c retry totalAttempts lastError (Throw (Rethrown (as_Error e))) []
              (rl @ [Attempt ?c currentModel (Some e)])"
          using rl False by (auto simp add: retry_summary_def)
        moreover have "retry_loop operation currentModel retry totalAttempts lastError s
              = (Throw (Rethrown (as_Error e)), s2)"
          using True c Inl False by (simp add: retry_loop_fatal)
        ultimately show ?thesis using t2 Inl by (metis fst_conv snd_conv sum.simps(5))
      next
        case re: True
        obtain d s3 where b: "calculateBackoffDelay retry s2 = (d, s3)"
          by (cases "calculateBackoffDelay retry s2")
        let ?s4 = "sleep Backoff (timeout_ms d) s3"
        let ?pre = "rl @ [Attempt ?c currentModel (Some e), Slept Backoff (timeout_ms d)]"
        have c4: "currentModelIndex ?s4 = ?c"
          using calculateBackoffDelay_fields(3) [OF b] call_operation_fields(3) [OF c] by simp
        have t4: "trace ?s4 = trace s @ ?pre"
          using calculateBackoffDelay_fields(5) [OF b] t2 Inl by simp
        have step: "retry_loop operation currentModel retry totalAttempts lastError s =
            retry_loop operation currentModel (retry + 1) (totalAttempts + 1) (Some (as_Error e)) ?s4"
          using True c Inl re b by (simp add: retry_loop_retry)
        let ?res = "retry_loop operation currentModel (retry + 1) (totalAttempts + 1) (Some (as_Error e)) ?s4"
        from "1.IH" [OF True refl c [symmetric] _ re b [symmetric]] Inl
        obtain es evs where ih: "trace (snd ?res) = trace ?s4 @ evs"
          "retry_summary ?c (retry + 1) (totalAttempts + 1) (Some (as_Error e)) (fst ?res) es evs"
          using c4 by auto
        have "retry_summary ?c retry totalAttempts lastError (fst ?res) (e # es) (?pre @ evs)"
          using ih(2) rl re True
          by (cases "fst ?res") (auto simp add: retry_summary_def)
        moreover have "trace (snd ?res) = trace s @ ?pre @ evs" using ih(1) t4 by simp
        ultimately show ?thesis unfolding step by blast
      qed
    qed
  qed
qed

subsection \<open>What the model loop does\<close>

lemma model_loop_exit:
  "\<not> a \<le> length (fallbackModels s) \<Longrightarrow> model_loop operation a ta le s = (Done ta le, s)"
  by (subst model_loop.simps) simp

lemma model_loop_uninitialized:
  "a \<le> length (fallbackModels s) \<Longrightarrow> getCurrentModel s = Inl e \<Longrightarrow>
   model_loop operation a ta le s = (Throw e, s)"
  by (subst model_loop.simps) simp

lemma model_loop_return:
  "a \<le> length (fallbackModels s) \<Longrightarrow> getCurrentModel s = Inr m \<Longrightarrow>
   retry_loop operation m 0 ta le s = (Return v, s1) \<Longrightarrow>
   model_loop operation a ta le s = (Return v, s1)"
  by (subst model_loop.simps) simp

lemma model_loop_throw:
  "a \<le> length (fallbackModels s) \<Longrightarrow> getCurrentModel s = Inr m \<Longrightarrow>
   retry_loop operation m 0 ta le s = (Throw e, s1) \<Longrightarrow>
   model_loop operation a ta le s = (Throw e, s1)"
  by (subst model_loop.simps) simp

lemma model_loop_break:
  "a \<le> length (fallbackModels s) \<Longrightarrow> getCurrentModel s = Inr m \<Longrightarrow>
   retry_loop operation m 0 ta le s = (Done ta1 le1, s1) \<Longrightarrow>
   getNextModel s1 = (None, s2) \<Longrightarrow>
   model_loop operation a ta le s = (Done ta1 le1, s2)"
  by (subst model_loop.simps) simp

lemma model_loop_next:
  "a \<le> length (fallbackModels s) \<Longrightarrow> getCurrentModel s = Inr m \<Longrightarrow>
   retry_loop operation m 0 ta le s = (Done ta1 le1, s1) \<Longrightarrow>
   getNextModel s1 = (Some n, s2) \<Longrightarrow>
   model_loop operation a ta le s =
     model_loop operation (a + 1) ta1 le1 (sleep ModelSwitch 2000 s2)"
  by (subst model_loop.simps) simp

lemma getNextModel_cases:
  obtains (advance) m where "currentModelIndex s < length (fallbackModels s)"
      "getNextModel s = (Some m, s\<lparr>currentModelIndex := currentModelIndex s + 1\<rparr>)"
  | (stay) "\<not> currentModelIndex s < length (fallbackModels s)" "getNextModel s = (None, s)"
  by (cases "currentModelIndex s < length (fallbackModels s)") (auto simp add: getNextModel_def Let_def)

lemma getCurrentModel_frame:
  "primaryModel s' = primaryModel s \<Longrightarrow> fallbackModels s' = fallbackModels s \<Longrightarrow>
   currentModelIndex s' = currentModelIndex s \<Longrightarrow> getCurrentModel s' = getCurrentModel s"
  by (simp add: getCurrentModel_def split: option.splits)

text \<open>An induction rule for the model loop that follows its six ways through one iteration.\<close>

lemma model_loop_cases_induct [consumes 0, case_names exit uninitialized return throw break advance]:
  fixes P :: "('w, 'a) operation \<Rightarrow> nat \<Rightarrow> nat \<Rightarrow> thrown option \<Rightarrow> 'w state \<Rightarrow> bool"
  assumes "\<And>operation a ta le s. \<not> a \<le> length (fallbackModels s) \<Longrightarrow> P operation a ta le s"
    and "\<And>operation a ta le s e. a \<le> length (fallbackModels s) \<Longrightarrow> getCurrentModel s = Inl e \<Longrightarrow>
           P operation a ta le s"
    and "\<And>operation a ta le s m v s1. a \<le> length (fallbackModels s) \<Longrightarrow> getCurrentModel s = Inr m \<Longrightarrow>
           retry_loop operation m 0 ta le s = (Return v, s1) \<Longrightarrow> P operation a ta le s"
    and "\<And>operation a ta le s m e s1. a \<le> length (fallbackModels s) \<Longrightarrow> getCurrentModel s = Inr m \<Longrightarrow>
           retry_loop operation m 0 ta le s = (Throw e, s1) \<Longrightarrow> P operation a ta le s"
    and "\<And>operation a ta le s m ta1 le1 s1. a \<le> length (fallbackModels s) \<Longrightarrow> getCurrentModel s = Inr m \<Longrightarrow>
           retry_loop operation m 0 ta le s = (Done ta1 le1, s1) \<Longrightarrow>
           \<not> currentModelIndex s1 < length (fallbackModels s1) \<Longrightarrow>
           getNextModel s1 = (None, s1) \<Longrightarrow> P operation a ta le s"
    and "\<And>operation a ta le s m ta1 le1 s1 n. a \<le> length (fallbackModels s) \<Longrightarrow> getCurrentModel s = Inr m \<Longrightarrow>
           retry_loop operation m 0 ta le s = (Done ta1 le1, s1) \<Longrightarrow>
           currentModelIndex s1 < length (fallbackModels s1) \<Longrightarrow>
           getNextModel s1 = (Some n, s1\<lparr>currentModelIndex := currentModelIndex s1 + 1\<rparr>) \<Longrightarrow>
           P operation (a + 1) ta1 le1 (sleep ModelSwitch 2000 (s1\<lparr>currentModelIndex := currentModelIndex s1 + 1\<rparr>)) \<Longrightarrow>
           P operation a ta le s"
  shows "P operation a ta le s"
proof (induction operation a ta le s rule: model_loop.induct)
  case (1 operation a ta le s)
  show ?case
  proof (cases "a \<le> length (fallbackModels s)")
    case False
    then show ?thesis by (rule assms(1))
  next
    case True
    show ?thesis
    proof (cases "getCurrentModel s")
      case (Inl e)
      with True show ?thesis by (rule assms(2))
    next
      case (Inr m)
      obtain ex s1 where r: "retry_loop operation m 0 ta le s = (ex, s1)"
        by (cases "retry_loop operation m 0 ta le s")
      show ?thesis
      proof (cases ex)
        case (Return v)
        with True Inr r show ?thesis using assms(3) by blast
      next
        case (Throw e)
        with True Inr r show ?thesis using assms(4) by blast
      next
        case (Done ta1 le1)
        note r' = r [unfolded Done]
        show ?thesis
        proof (cases s1 rule: getNextModel_cases)
          case stay
          with True Inr r' show ?thesis using assms(5) by blast
        next
          case (advance n)
          have "P operation (a + 1) ta1 le1
                  (sleep ModelSwitch 2000 (s1\<lparr>currentModelIndex := currentModelIndex s1 + 1\<rparr>))"
            using "1.IH" [OF True Inr r' [symmetric] refl advance(2) [symmetric] refl] .
          with True Inr r' advance show ?thesis using assms(6) by blast
        qed
      qed
    qed
  qed
qed

lemma attempts_on_append [simp]: "attempts_on i (xs @ ys) = attempts_on i xs + attempts_on i ys"
  by (simp add: attempts_on_def)

lemma attempts_on_no_attempt: "attempt_outcomes evs = [] \<Longrightarrow> attempts_on i evs = 0"
  by (simp add: attempts_on_def)

lemma attempts_on_same_cursor:
  "attempt_outcomes evs = map (\<lambda>e. (c, Some e)) es \<Longrightarrow>
   attempts_on i evs = (if i = c then length es else 0)"
  by (simp add: attempts_on_def o_def)

lemma retry_loop_done_summary:
  fixes operation :: "('w, 'a) operation"
  assumes "retry_loop operation m 0 ta le s = (Done ta1 le1, s1)"
  obtains es evs where "trace s1 = trace s @ evs"
    and "attempt_outcomes evs = map (\<lambda>e. (currentModelIndex s, Some e)) es"
    and "length es = maxRetries RETRY_CONFIG" and "ta1 = ta + maxRetries RETRY_CONFIG"
    and "le1 = (if es = [] then le else Some (as_Error (last es)))"
    and "\<forall>e \<in> set es. isRetryableError e"
    and "sleeps_at ModelSwitch evs = []"
proof -
  have "\<exists>es evs. trace s1 = trace s @ evs \<and>
          retry_summary (currentModelIndex s) 0 ta le (Done ta1 le1 :: 'a loop_exit) es evs"
    using retry_loop_trace [of operation m 0 ta le s] assms by simp
  then obtain es evs where "trace s1 = trace s @ evs"
    "retry_summary (currentModelIndex s) 0 ta le (Done ta1 le1 :: 'a loop_exit) es evs"
    by blast
  then show thesis using that [of evs es] by (simp add: retry_summary_def)
qed

lemma model_loop_exhausted:
  assumes "model_loop operation a ta le s = (Done ta' le', s')"
    and "a \<le> currentModelIndex s" and "currentModelIndex s \<le> length (fallbackModels s)"
  shows "\<exists>evs. trace s' = trace s @ evs \<and>
           exhausted_summary (currentModelIndex s) (length (fallbackModels s)) ta le ta' le' evs"
  using assms
proof (induction operation a ta le s rule: model_loop_cases_induct)
  case (exit operation a ta le s)
  then show ?case by simp
next
  case (uninitialized operation a ta le s e)
  then show ?case by (simp add: model_loop_uninitialized)
next
  case (return operation a ta le s m v s1)
  then show ?case by (simp add: model_loop_return)
next
  case (throw operation a ta le s m e s1)
  then show ?case by (simp add: model_loop_throw)
next
  case (break operation a ta le s m ta1 le1 s1)
  let ?c = "currentModelIndex s" and ?n = "length (fallbackModels s)"
  have fr: "fallbackModels s1 = fallbackModels s" "currentModelIndex s1 = currentModelIndex s"
    using retry_loop_frame [of operation m 0 ta le s] break(3) by simp_all
  have eq: "ta' = ta1" "le' = le1" "s' = s1"
    using break model_loop_break [OF break(1,2,3,5)] by simp_all
  have cn: "?c = ?n" using break(4) break.prems(3) fr by simp
  obtain es evs where s: "trace s1 = trace s @ evs"
    "attempt_outcomes evs = map (\<lambda>e. (?c, Some e)) es"
    "length es = maxRetries RETRY_CONFIG" "ta1 = ta + maxRetries RETRY_CONFIG"
    "le1 = (if es = [] then le else Some (as_Error (last es)))"
    "\<forall>e \<in> set es. isRetryableError e" "sleeps_at ModelSwitch evs = []"
    using break(3) by (rule retry_loop_done_summary)
  have "exhausted_summary ?c ?n ta le ta' le' evs"
    unfolding exhausted_summary_def eq
    using s cn attempts_on_same_cursor [OF s(2)] by (auto simp add: last_map)
  then show ?case using s(1) eq by blast
next
  case (advance operation a ta le s m ta1 le1 s1 n)
  let ?c = "currentModelIndex s" and ?n = "length (fallbackModels s)"
  let ?s2 = "s1\<lparr>currentModelIndex := currentModelIndex s1 + 1\<rparr>"
  let ?s3 = "sleep ModelSwitch 2000 ?s2"
  have fr: "fallbackModels s1 = fallbackModels s" "currentModelIndex s1 = currentModelIndex s"
    using retry_loop_frame [of operation m 0 ta le s] advance(3) by simp_all
  have lt: "?c < ?n" using advance(4) fr by simp
  have step: "model_loop operation a ta le s = model_loop operation (a + 1) ta1 le1 ?s3"
    using model_loop_next [OF advance(1,2,3,5)] .
  obtain es evs where s: "trace s1 = trace s @ evs"
    "attempt_outcomes evs = map (\<lambda>e. (?c, Some e)) es"
    "length es = maxRetries RETRY_CONFIG" "ta1 = ta + maxRetries RETRY_CONFIG"
    "le1 = (if es = [] then le else Some (as_Error (last es)))"
    "\<forall>e \<in> set es. isRetryableError e" "sleeps_at ModelSwitch evs = []"
    using advance(3) by (rule retry_loop_done_summary)
  have c3: "currentModelIndex ?s3 = ?c + 1" "fallbackModels ?s3 = fallbackModels s"
    using fr by simp_all
  have t3: "trace ?s3 = trace s @ evs @ [Slept ModelSwitch 2000]" using s(1) by simp
  obtain evs' where ih: "trace s' = trace ?s3 @ evs'"
     "exhausted_summary (?c + 1) ?n ta1 le1 ta' le' evs'"
    using advance.IH advance.prems step lt c3 by auto
  let ?all = "evs @ [Slept ModelSwitch 2000] @ evs'"
  have tr: "trace s' = trace s @ ?all" using ih(1) t3 by simp
  have o: "attempt_outcomes ?all = map (\<lambda>e. (?c, Some e)) es @ attempt_outcomes evs'"
    using s(2) by simp
  have 1: "ta' = ta + (Suc ?n - ?c) * maxRetries RETRY_CONFIG"
  proof -
    have "Suc ?n - ?c = Suc (Suc ?n - (?c + 1))" using lt by simp
    then show ?thesis using ih(2) s(4) by (simp add: exhausted_summary_def)
  qed
  have 2: "length (attempt_outcomes ?all) = (Suc ?n - ?c) * maxRetries RETRY_CONFIG"
  proof -
    have "Suc ?n - ?c = Suc (Suc ?n - (?c + 1))" using lt by simp
    then show ?thesis using ih(2) s(3) o by (simp add: exhausted_summary_def)
  qed
  have 3: "attempts_on i ?all = (if ?c \<le> i \<and> i \<le> ?n then maxRetries RETRY_CONFIG else 0)" for i
  proof -
    have "attempts_on i ?all = attempts_on i evs + attempts_on i evs'"
      by (simp add: attempts_on_def)
    also have "attempts_on i evs = (if i = ?c then maxRetries RETRY_CONFIG else 0)"
      using attempts_on_same_cursor [OF s(2)] s(3) by simp
    also have "attempts_on i evs' = (if ?c + 1 \<le> i \<and> i \<le> ?n then maxRetries RETRY_CONFIG else 0)"
      using ih(2) by (simp add: exhausted_summary_def)
    finally show ?thesis using lt by auto
  qed
  have 4: "\<forall>a \<in> set (attempt_outcomes ?all). \<exists>e. snd a = Some e \<and> isRetryableError e"
    using ih(2) s(6) o by (auto simp add: exhausted_summary_def)
  have 5: "le' = (if attempt_outcomes ?all = [] then le
            else Some (as_Error (the (snd (last (attempt_outcomes ?all))))))"
  proof (cases "attempt_outcomes evs' = []")
    case True
    then have "le' = le1" using ih(2) by (simp add: exhausted_summary_def)
    then show ?thesis using s(5) o True by (simp add: last_map)
  next
    case False
    then show ?thesis using ih(2) o by (simp add: exhausted_summary_def)
  qed
  have 6: "length (sleeps_at ModelSwitch ?all) = ?n - ?c"
    using ih(2) s(7) lt by (simp add: exhausted_summary_def)
  have "exhausted_summary ?c ?n ta le ta' le' ?all"
    unfolding exhausted_summary_def using 1 2 3 4 5 6 by blast
  then show ?case using tr by blast
qed

lemma retry_loop_always:
  assumes "always_retryable operation"
  shows "\<exists>ta' le'. fst (retry_loop operation m retry ta le s) = Done ta' le'"
  using assms
proof (induction operation m retry ta le s rule: retry_loop.induct)
  case (1 operation currentModel retry totalAttempts lastError s)
  show ?case
  proof (cases "retry < maxRetries RETRY_CONFIG")
    case False
    then show ?thesis by (simp add: retry_loop_done)
  next
    case True
    obtain r s2 where c: "call_operation operation currentModel (enforceRateLimit s) = (r, s2)"
      by (cases "call_operation operation currentModel (enforceRateLimit s)")
    have "\<exists>e. fst (operation (world (enforceRateLimit s)) currentModel) = Inl e \<and> isRetryableError e"
      using "1.prems" unfolding always_retryable_def by blast
    then obtain e where e: "r = Inl e" "isRetryableError e"
      using call_operation_result(1) [OF c] by auto
    obtain d s3 where b: "calculateBackoffDelay retry s2 = (d, s3)"
      by (cases "calculateBackoffDelay retry s2")
    have step: "retry_loop operation currentModel retry totalAttempts lastError s =
        retry_loop operation currentModel (retry + 1) (totalAttempts + 1) (Some (as_Error e))
          (sleep Backoff (timeout_ms d) s3)"
      using True c e b by (simp add: retry_loop_retry)
    show ?thesis
      unfolding step
      using "1.IH" [OF True refl c [symmetric] _ e(2) b [symmetric] refl "1.prems"] e(1) by simp
  qed
qed

lemma getCurrentModel_initialized:
  "primaryModel s = Some p \<Longrightarrow> \<exists>m. getCurrentModel s = Inr m"
  by (simp add: getCurrentModel_def)

lemma model_loop_always:
  fixes operation :: "('w, 'a) operation"
  assumes "always_retryable operation" and "primaryModel s = Some p"
  shows "\<exists>ta' le'. fst (model_loop operation a ta le s) = Done ta' le'"
  using assms
proof (induction operation a ta le s rule: model_loop_cases_induct)
  case (exit operation a ta le s)
  then show ?case by (simp add: model_loop_exit)
next
  case (uninitialized operation a ta le s e)
  then show ?case using getCurrentModel_initialized [of s p] by simp
next
  case (return operation a ta le s m v s1)
  then show ?case using retry_loop_always [of operation m 0 ta le s] by simp
next
  case (throw operation a ta le s m e s1)
  then show ?case using retry_loop_always [of operation m 0 ta le s] by simp
next
  case (break operation a ta le s m ta1 le1 s1)
  then show ?case using model_loop_break [OF break(1,2,3,5)] by simp
next
  case (advance operation a ta le s m ta1 le1 s1 n)
  have "primaryModel s1 = primaryModel s"
    using retry_loop_frame [of operation m 0 ta le s] advance(3) by simp
  then show ?case using advance model_loop_next [OF advance(1,2,3,5)] by simp
qed

lemma retry_loop_returned:
  assumes "retry_loop operation m retry ta le s = (Return v, s')"
  shows "\<exists>evs. trace s' = trace s @ evs @ [Attempt (currentModelIndex s) m None] \<and>
           sleeps_at ModelSwitch evs = []"
  using assms
proof (induction operation m retry ta le s rule: retry_loop.induct)
  case (1 operation currentModel retry totalAttempts lastError s)
  show ?case
  proof (cases "retry < maxRetries RETRY_CONFIG")
    case False
    then show ?thesis using "1.prems" by (simp add: retry_loop_done)
  next
    case True
    obtain r s2 where c: "call_operation operation currentModel (enforceRateLimit s) = (r, s2)"
      by (cases "call_operation operation currentModel (enforceRateLimit s)")
    obtain rl where rl: "trace (enforceRateLimit s) = trace s @ rl" "attempt_outcomes rl = []"
        "sleeps_at Backoff rl = []" "sleeps_at ModelSwitch rl = []"
      using enforceRateLimit_trace by blast
    have t2: "trace s2 = trace s @ rl @ [Attempt (currentModelIndex s) currentModel
                (case r of Inl e \<Rightarrow> Some e | Inr v \<Rightarrow> None)]"
      using call_operation_result(3) [OF c] rl(1) by simp
    show ?thesis
    proof (cases r)
      case (Inr v')
      then have "s' = s2" using "1.prems" True c by (simp add: retry_loop_return)
      then show ?thesis using t2 Inr rl(4) by auto
    next
      case (Inl e)
      show ?thesis
      proof (cases "isRetryableError e")
        case False
        then show ?thesis using "1.prems" True c Inl by (simp add: retry_loop_fatal)
      next
        case re: True
        obtain d s3 where b: "calculateBackoffDelay retry s2 = (d, s3)"
          by (cases "calculateBackoffDelay retry s2")
        let ?s4 = "sleep Backoff (timeout_ms d) s3"
        let ?pre = "rl @ [Attempt (currentModelIndex s) currentModel (Some e), Slept Backoff (timeout_ms d)]"
        have c4: "currentModelIndex ?s4 = currentModelIndex s"
          using calculateBackoffDelay_fields(3) [OF b] call_operation_fields(3) [OF c] by simp
        have t4: "trace ?s4 = trace s @ ?pre"
          using calculateBackoffDelay_fields(5) [OF b] t2 Inl by simp
        have step: "retry_loop operation currentModel retry totalAttempts lastError s =
            retry_loop operation currentModel (retry + 1) (totalAttempts + 1) (Some (as_Error e)) ?s4"
          using True c Inl re b by (simp add: retry_loop_retry)
        from "1.IH" [OF True refl c [symmetric] _ re b [symmetric]] Inl "1.prems" [unfolded step]
        obtain evs where "trace s' = trace ?s4 @ evs @ [Attempt (currentModelIndex ?s4) currentModel None]"
          "sleeps_at ModelSwitch evs = []"
          by auto
        then have "trace s' = trace s @ (?pre @ evs) @ [Attempt (currentModelIndex s) currentModel None]"
          "sleeps_at ModelSwitch (?pre @ evs) = []"
          using t4 c4 rl(4) by simp_all
        then show ?thesis by blast
      qed
    qed
  qed
qed

lemma model_loop_returned:
  assumes "model_loop operation a ta le s = (Return v, s')"
  shows "\<exists>evs m. trace s' = trace s @ evs @ [Attempt (currentModelIndex s') m None] \<and>
           getCurrentModel s' = Inr m \<and>
           currentModelIndex s' = currentModelIndex s + length (sleeps_at ModelSwitch evs) \<and>
           primaryModel s' = primaryModel s \<and> fallbackModels s' = fallbackModels s"
  using assms
proof (induction operation a ta le s rule: model_loop_cases_induct)
  case (exit operation a ta le s)
  then show ?case by (simp add: model_loop_exit)
next
  case (uninitialized operation a ta le s e)
  then show ?case by (simp add: model_loop_uninitialized)
next
  case (return operation a ta le s m v' s1)
  have eq: "s' = s1" using return model_loop_return [OF return(1,2,3)] by simp
  have fr: "fallbackModels s1 = fallbackModels s" "primaryModel s1 = primaryModel s"
     "currentModelIndex s1 = currentModelIndex s"
    using retry_loop_frame [of operation m 0 ta le s] return(3) by simp_all
  obtain evs where "trace s1 = trace s @ evs @ [Attempt (currentModelIndex s) m None]"
     "sleeps_at ModelSwitch evs = []"
    using retry_loop_returned [OF return(3)] by blast
  moreover have "getCurrentModel s1 = Inr m"
    using getCurrentModel_frame [OF fr(2,1,3)] return(2) by simp
  ultimately show ?case unfolding eq using fr by auto
next
  case (throw operation a ta le s m e s1)
  then show ?case by (simp add: model_loop_throw)
next
  case (break operation a ta le s m ta1 le1 s1)
  then show ?case using model_loop_break [OF break(1,2,3,5)] by simp
next
  case (advance operation a ta le s m ta1 le1 s1 n)
  let ?s2 = "s1\<lparr>currentModelIndex := currentModelIndex s1 + 1\<rparr>"
  let ?s3 = "sleep ModelSwitch 2000 ?s2"
  have fr: "fallbackModels s1 = fallbackModels s" "primaryModel s1 = primaryModel s"
     "currentModelIndex s1 = currentModelIndex s"
    using retry_loop_frame [of operation m 0 ta le s] advance(3) by simp_all
  obtain es evs1 where s: "trace s1 = trace s @ evs1" "sleeps_at ModelSwitch evs1 = []"
    using advance(3) by (rule retry_loop_done_summary)
  have step: "model_loop operation a ta le s = model_loop operation (a + 1) ta1 le1 ?s3"
    using model_loop_next [OF advance(1,2,3,5)] .
  obtain evs m' where ih: "trace s' = trace ?s3 @ evs @ [Attempt (currentModelIndex s') m' None]"
    "getCurrentModel s' = Inr m'"
    "currentModelIndex s' = currentModelIndex ?s3 + length (sleeps_at ModelSwitch evs)"
    "primaryModel s' = primaryModel ?s3" "fallbackModels s' = fallbackModels ?s3"
    using advance.IH advance.prems step by auto
  let ?all = "evs1 @ [Slept ModelSwitch 2000] @ evs"
  have "trace s' = trace s @ ?all @ [Attempt (currentModelIndex s') m' None]"
    using ih(1) s(1) by simp
  moreover have "currentModelIndex s' = currentModelIndex s + length (sleeps_at ModelSwitch ?all)"
    using ih(3) s(2) fr by simp
  moreover have "primaryModel s' = primaryModel s" "fallbackModels s' = fallbackModels s"
    using ih(4,5) fr by simp_all
  ultimately show ?case using ih(2) by blast
qed

subsection \<open>What one call of executeWithRetry does\<close>

lemma retry_loop_thrown:
  fixes operation :: "('w, 'a) operation"
  assumes "retry_loop operation m retry ta le s = (Throw x, s')"
  shows "\<exists>e. x = Rethrown (as_Error e)"
proof -
  have "\<exists>es evs. retry_summary (currentModelIndex s) retry ta le (Throw x :: 'a loop_exit) es evs"
    using retry_loop_trace [of operation m retry ta le s] assms by auto
  then show ?thesis by (auto simp add: retry_summary_def)
qed

lemma model_loop_thrown:
  assumes "model_loop operation a ta le s = (Throw x, s')"
  shows "x = NotInitialized \<or> (\<exists>e. x = Rethrown e)"
  using assms
proof (induction operation a ta le s rule: model_loop_cases_induct)
  case (exit operation a ta le s)
  then show ?case by (simp add: model_loop_exit)
next
  case (uninitialized operation a ta le s e)
  then have "x = e" by (simp add: model_loop_uninitialized)
  moreover have "e = NotInitialized"
    using uninitialized(2) by (auto simp add: getCurrentModel_def split: option.splits if_splits)
  ultimately show ?case by simp
next
  case (return operation a ta le s m v s1)
  then show ?case by (simp add: model_loop_return)
next
  case (throw operation a ta le s m e s1)
  then have "x = e" by (simp add: model_loop_throw)
  then show ?case using retry_loop_thrown [OF throw(3)] by blast
next
  case (break operation a ta le s m ta1 le1 s1)
  then show ?case using model_loop_break [OF break(1,2,3,5)] by simp
next
  case (advance operation a ta le s m ta1 le1 s1 n)
  then show ?case using model_loop_next [OF advance(1,2,3,5)] by simp
qed

lemma model_loop_frame:
  "primaryModel (snd (model_loop operation a ta le s)) = primaryModel s \<and>
   fallbackModels (snd (model_loop operation a ta le s)) = fallbackModels s"
proof (induction operation a ta le s rule: model_loop_cases_induct)
  case (exit operation a ta le s)
  then show ?case by (simp add: model_loop_exit)
next
  case (uninitialized operation a ta le s e)
  then show ?case by (simp add: model_loop_uninitialized)
next
  case (return operation a ta le s m v s1)
  then show ?case using retry_loop_frame [of operation m 0 ta le s] by (simp add: model_loop_return)
next
  case (throw operation a ta le s m e s1)
  then show ?case using retry_loop_frame [of operation m 0 ta le s] by (simp add: model_loop_throw)
next
  case (break operation a ta le s m ta1 le1 s1)
  then show ?case using retry_loop_frame [of operation m 0 ta le s]
      model_loop_break [OF break(1,2,3,5)] by simp
next
  case (advance operation a ta le s m ta1 le1 s1 n)
  then show ?case using retry_loop_frame [of operation m 0 ta le s]
      model_loop_next [OF advance(1,2,3,5)] by simp
qed

lemma execute_exhausted_only:
  assumes "executeWithRetry operation operationName s = (Inl (AllExhausted name ta k le), s')"
    and "currentModelIndex s \<le> length (fallbackModels s)"
  shows "\<exists>evs. trace s' = trace s @ evs \<and>
           exhausted_summary (currentModelIndex s) (length (fallbackModels s)) 0 None ta le evs"
    and "name = operationName" and "k = 1" and "currentModelIndex s' = 0"
    and "primaryModel s' = primaryModel s" and "fallbackModels s' = fallbackModels s"
proof -
  obtain ex s1 where m: "model_loop operation 0 0 None s = (ex, s1)"
    by (cases "model_loop operation 0 0 None s")
  have fr: "primaryModel s1 = primaryModel s" "fallbackModels s1 = fallbackModels s"
    using model_loop_frame [of operation 0 0 None s] m by simp_all
  have "\<exists>ta' le'. ex = Done ta' le'"
  proof (cases ex)
    case (Return v)
    then show ?thesis using assms(1) m by (simp add: executeWithRetry_def)
  next
    case (Throw x)
    then have "x = AllExhausted name ta k le" using assms(1) m by (simp add: executeWithRetry_def)
    then show ?thesis using model_loop_thrown [OF m [unfolded Throw]] by simp
  next
    case (Done ta' le')
    then show ?thesis by simp
  qed
  then obtain ta' le' where d: "ex = Done ta' le'" by blast
  have e: "name = operationName" "ta = ta'" "le = le'" "k = 1" "s' = resetToMainModel s1"
    using assms(1) m d by (simp_all add: executeWithRetry_def Let_def resetToMainModel_def)
  show "name = operationName" "k = 1" by (rule e)+
  show "currentModelIndex s' = 0" using e(5) by (simp add: resetToMainModel_def)
  show "primaryModel s' = primaryModel s" "fallbackModels s' = fallbackModels s"
    using e(5) fr by (simp_all add: resetToMainModel_def)
  have "\<exists>evs. trace s1 = trace s @ evs \<and>
           exhausted_summary (currentModelIndex s) (length (fallbackModels s)) 0 None ta' le' evs"
    using model_loop_exhausted [OF m [unfolded d] _ assms(2)] by simp
  then show "\<exists>evs. trace s' = trace s @ evs \<and>
           exhausted_summary (currentModelIndex s) (length (fallbackModels s)) 0 None ta le evs"
    using e by (simp add: resetToMainModel_def)
qed

lemma execute_always_exhausted:
  fixes operation :: "('w, 'a) operation"
  assumes "always_retryable operation" and "primaryModel s = Some p"
  shows "\<exists>ta le s'. executeWithRetry operation operationName s
           = (Inl (AllExhausted operationName ta 1 le), s')"
proof -
  obtain ta le where "fst (model_loop operation 0 0 None s) = Done ta le"
    using model_loop_always [OF assms, of 0 0 None] by blast
  then obtain s1 where "model_loop operation 0 0 None s = (Done ta le, s1)"
    by (cases "model_loop operation 0 0 None s") simp
  then have "executeWithRetry operation operationName s
           = (Inl (AllExhausted operationName ta 1 le), resetToMainModel s1)"
    by (simp add: executeWithRetry_def Let_def resetToMainModel_def)
  then show ?thesis by blast
qed

lemma execute_first_attempt_fatal:
  fixes operation :: "('w, 'a) operation"
  assumes "getCurrentModel s = Inr m" and "fst (operation (world s) m) = Inl e"
    and "\<not> isRetryableError e"
  shows "\<exists>s' rl. executeWithRetry operation operationName s = (Inl (Rethrown (as_Error e)), s') \<and>
           trace s' = trace s @ rl @ [Attempt (currentModelIndex s) m (Some e)] \<and>
           attempt_outcomes rl = [] \<and> sleeps_at Backoff rl = [] \<and> sleeps_at ModelSwitch rl = [] \<and>
           currentModelIndex s' = currentModelIndex s \<and> getCurrentModel s' = Inr m"
proof -
  obtain r s2 where c: "call_operation operation m (enforceRateLimit s) = (r, s2)"
    by (cases "call_operation operation m (enforceRateLimit s)")
  have r: "r = Inl e" using call_operation_result(1) [OF c] assms(2) by simp
  obtain rl where rl: "trace (enforceRateLimit s) = trace s @ rl" "attempt_outcomes rl = []"
      "sleeps_at Backoff rl = []" "sleeps_at ModelSwitch rl = []"
    using enforceRateLimit_trace by blast
  have t2: "trace s2 = trace s @ rl @ [Attempt (currentModelIndex s) m (Some e)]"
    using call_operation_result(3) [OF c] rl(1) r by simp
  have fr: "primaryModel s2 = primaryModel s" "fallbackModels s2 = fallbackModels s"
      "currentModelIndex s2 = currentModelIndex s"
    using call_operation_fields [OF c] by simp_all
  have "0 < maxRetries RETRY_CONFIG" by (simp add: RETRY_CONFIG_def)
  then have "retry_loop operation m 0 0 None s = (Throw (Rethrown (as_Error e)), s2)"
    using c r assms(3) by (simp add: retry_loop_fatal)
  then have "model_loop operation 0 0 None s = (Throw (Rethrown (as_Error e)), s2)"
    using assms(1) by (simp add: model_loop_throw)
  then have "executeWithRetry operation operationName s = (Inl (Rethrown (as_Error e)), s2)"
    by (simp add: executeWithRetry_def)
  moreover have "getCurrentModel s2 = Inr m"
    using getCurrentModel_frame [OF fr] assms(1) by simp
  ultimately show ?thesis using t2 rl fr by blast
qed

lemma execute_first_attempt_success:
  fixes operation :: "('w, 'a) operation"
  assumes "getCurrentModel s = Inr m" and "fst (operation (world s) m) = Inr v"
  shows "\<exists>s'. executeWithRetry operation operationName s = (Inr v, s')"
proof -
  obtain r s2 where c: "call_operation operation m (enforceRateLimit s) = (r, s2)"
    by (cases "call_operation operation m (enforceRateLimit s)")
  have r: "r = Inr v" using call_operation_result(1) [OF c] assms(2) by simp
  have "0 < maxRetries RETRY_CONFIG" by (simp add: RETRY_CONFIG_def)
  then have "retry_loop operation m 0 0 None s = (Return v, s2)"
    using c r by (simp add: retry_loop_return)
  then have "model_loop operation 0 0 None s = (Return v, s2)"
    using assms(1) by (simp add: model_loop_return)
  then show ?thesis by (simp add: executeWithRetry_def)
qed

lemma outcomes_of_operation_append:
  "outcomes_of_operation operation (xs @ ys) \<longleftrightarrow>
     outcomes_of_operation operation xs \<and> outcomes_of_operation operation ys"
  by (auto simp add: outcomes_of_operation_def)

lemma outcomes_of_operation_Nil [simp]: "outcomes_of_operation operation []"
  by (simp add: outcomes_of_operation_def)

lemma outcomes_of_operation_Slept [simp]:
  "outcomes_of_operation operation (Slept site ms # evs) = outcomes_of_operation operation evs"
  by (simp add: outcomes_of_operation_def)

lemma outcomes_of_operation_single:
  "outcomes_of_operation operation ([x] @ evs) \<longleftrightarrow>
     outcomes_of_operation operation [x] \<and> outcomes_of_operation operation evs"
  by (rule outcomes_of_operation_append)

lemma outcomes_of_operation_no_attempt:
  "attempt_outcomes evs = [] \<Longrightarrow> outcomes_of_operation operation evs"
  by (simp add: outcomes_of_operation_def)

lemma retry_loop_outcomes:
  "\<exists>evs. trace (snd (retry_loop operation m retry ta le s)) = trace s @ evs \<and>
     outcomes_of_operation operation evs"
proof (induction operation m retry ta le s rule: retry_loop.induct)
  case (1 operation currentModel retry totalAttempts lastError s)
  show ?case
  proof (cases "retry < maxRetries RETRY_CONFIG")
    case False
    have "outcomes_of_operation operation []" by (simp add: outcomes_of_operation_def)
    then show ?thesis using False by (simp add: retry_loop_done)
  next
    case True
    obtain r s2 where c: "call_operation operation currentModel (enforceRateLimit s) = (r, s2)"
      by (cases "call_operation operation currentModel (enforceRateLimit s)")
    obtain rl where rl: "trace (enforceRateLimit s) = trace s @ rl" "attempt_outcomes rl = []"
      using enforceRateLimit_trace by blast
    let ?att = "Attempt (currentModelIndex (enforceRateLimit s)) currentModel
                  (case r of Inl e \<Rightarrow> Some e | Inr v \<Rightarrow> None)"
    have t2: "trace s2 = trace s @ rl @ [?att]"
      using call_operation_result(3) [OF c] rl(1) by simp
    have o2: "outcomes_of_operation operation (rl @ [?att])"
      using call_operation_result(1) [OF c] rl(2)
      by (auto simp add: outcomes_of_operation_def)
    show ?thesis
    proof (cases r)
      case (Inr v)
      then have "retry_loop operation currentModel retry totalAttempts lastError s = (Return v, s2)"
        using True c by (simp add: retry_loop_return)
      then show ?thesis using t2 o2 by auto
    next
      case (Inl e)
      show ?thesis
      proof (cases "isRetryableError e")
        case False
        then have "retry_loop operation currentModel retry totalAttempts lastError s
              = (Throw (Rethrown (as_Error e)), s2)"
          using True c Inl by (simp add: retry_loop_fatal)
        then show ?thesis using t2 o2 by auto
      next
        case re: True
        obtain d s3 where b: "calculateBackoffDelay retry s2 = (d, s3)"
          by (cases "calculateBackoffDelay retry s2")
        let ?s4 = "sleep Backoff (timeout_ms d) s3"
        let ?res = "retry_loop operation currentModel (retry + 1) (totalAttempts + 1) (Some (as_Error e)) ?s4"
        have t4: "trace ?s4 = trace s @ (rl @ [?att]) @ [Slept Backoff (timeout_ms d)]"
          using calculateBackoffDelay_fields(5) [OF b] t2 by simp
        have step: "retry_loop operation currentModel retry totalAttempts lastError s = ?res"
          using True c Inl re b by (simp add: retry_loop_retry)
        from "1.IH" [OF True refl c [symmetric] _ re b [symmetric]] Inl
        obtain evs where ih: "trace (snd ?res) = trace ?s4 @ evs" "outcomes_of_operation operation evs"
          by auto
        have "trace (snd ?res) = trace s @ ((rl @ [?att]) @ [Slept Backoff (timeout_ms d)] @ evs)"
          using ih(1) t4 by simp
        moreover have "outcomes_of_operation operation ((rl @ [?att]) @ [Slept Backoff (timeout_ms d)] @ evs)"
          using o2 ih(2) by (auto simp add: outcomes_of_operation_def)
        ultimately show ?thesis unfolding step by blast
      qed
    qed
  qed
qed

lemma model_loop_outcomes:
  "\<exists>evs. trace (snd (model_loop operation a ta le s)) = trace s @ evs \<and>
     outcomes_of_operation operation evs"
proof (induction operation a ta le s rule: model_loop_cases_induct)
  case (exit operation a ta le s)
  then show ?case by (simp add: model_loop_exit outcomes_of_operation_no_attempt)
next
  case (uninitialized operation a ta le s e)
  then show ?case by (simp add: model_loop_uninitialized outcomes_of_operation_no_attempt)
next
  case (return operation a ta le s m v s1)
  then show ?case using retry_loop_outcomes [of operation m 0 ta le s]
    by (simp add: model_loop_return)
next
  case (throw operation a ta le s m e s1)
  then show ?case using retry_loop_outcomes [of operation m 0 ta le s]
    by (simp add: model_loop_throw)
next
  case (break operation a ta le s m ta1 le1 s1)
  then show ?case using retry_loop_outcomes [of operation m 0 ta le s]
      model_loop_break [OF break(1,2,3,5)] by simp
next
  case (advance operation a ta le s m ta1 le1 s1 n)
  let ?s3 = "sleep ModelSwitch 2000 (s1\<lparr>currentModelIndex := currentModelIndex s1 + 1\<rparr>)"
  obtain evs1 where 1: "trace s1 = trace s @ evs1" "outcomes_of_operation operation evs1"
    using retry_loop_outcomes [of operation m 0 ta le s] advance(3) by auto
  obtain evs where 2: "trace (snd (model_loop operation (a + 1) ta1 le1 ?s3)) = trace ?s3 @ evs"
      "outcomes_of_operation operation evs"
    using advance.IH by blast
  have "trace (snd (model_loop operation (a + 1) ta1 le1 ?s3))
          = trace s @ (evs1 @ [Slept ModelSwitch 2000] @ evs)"
    using 1(1) 2(1) by simp
  moreover have "outcomes_of_operation operation (evs1 @ [Slept ModelSwitch 2000] @ evs)"
    using 1(2) 2(2) by (simp add: outcomes_of_operation_append)
  ultimately show ?case unfolding model_loop_next [OF advance(1,2,3,5)] by blast
qed

lemma execute_outcomes:
  "\<exists>evs. trace (snd (executeWithRetry operation operationName s)) = trace s @ evs \<and>
     outcomes_of_operation operation evs"
proof -
  obtain ex s1 where m: "model_loop operation 0 0 None s = (ex, s1)"
    by (cases "model_loop operation 0 0 None s")
  have "trace (snd (executeWithRetry operation operationName s)) = trace s1"
    using m by (cases ex) (simp_all add: executeWithRetry_def Let_def resetToMainModel_def)
  then show ?thesis using model_loop_outcomes [of operation 0 0 None s] m by simp
qed

subsection \<open>Exhaustion from the primary (C1)\<close>





subsection \<open>Exhaustion from any cursor position (C2)\<close>

lemma attempt_backends_append [simp]:
  "attempt_backends (xs @ ys) = attempt_backends xs @ attempt_backends ys"
  by (induction xs rule: attempt_backends.induct) simp_all

lemma attempt_backends_cursors: "map fst (attempt_backends evs) = map fst (attempt_outcomes evs)"
  by (induction evs rule: attempt_backends.induct) simp_all

lemma attempts_on_backends:
  "attempts_on i evs = length (filter (\<lambda>a. fst a = i) (attempt_backends evs))"
proof -
  have c: "length (filter (\<lambda>a. fst a = i) xs) = length (filter (\<lambda>j. j = i) (map fst xs))"
    for xs :: "(nat \<times> 'b) list"
    by (simp add: filter_map o_def)
  show ?thesis
    unfolding attempts_on_def c [of "attempt_outcomes evs"] c [of "attempt_backends evs"]
    by (simp only: attempt_backends_cursors)
qed

lemma getCurrentModel_chain:
  assumes "primaryModel s = Some p" and "currentModelIndex s \<le> length (fallbackModels s)"
  shows "getCurrentModel s = Inr (chain s ! currentModelIndex s)"
  using assms by (cases "currentModelIndex s") (simp_all add: getCurrentModel_def chain_def)

lemma retry_loop_backends:
  "\<exists>evs. trace (snd (retry_loop operation m retry ta le s)) = trace s @ evs \<and>
     (\<forall>a \<in> set (attempt_backends evs). a = (currentModelIndex s, m))"
proof (induction operation m retry ta le s rule: retry_loop.induct)
  case (1 operation currentModel retry totalAttempts lastError s)
  show ?case
  proof (cases "retry < maxRetries RETRY_CONFIG")
    case False
    then show ?thesis by (simp add: retry_loop_done)
  next
    case True
    obtain r s2 where c: "call_operation operation currentModel (enforceRateLimit s) = (r, s2)"
      by (cases "call_operation operation currentModel (enforceRateLimit s)")
    obtain rl where rl: "trace (enforceRateLimit s) = trace s @ rl" "attempt_outcomes rl = []"
      using enforceRateLimit_trace by blast
    have rlb: "attempt_backends rl = []"
      using rl(2) attempt_backends_cursors [of rl] by simp
    let ?att = "Attempt (currentModelIndex s) currentModel
                  (case r of Inl e \<Rightarrow> Some e | Inr v \<Rightarrow> None)"
    have t2: "trace s2 = trace s @ rl @ [?att]"
      using call_operation_result(3) [OF c] rl(1) by simp
    have b2: "\<forall>a \<in> set (attempt_backends (rl @ [?att])). a = (currentModelIndex s, currentModel)"
      using rlb by simp
    show ?thesis
    proof (cases r)
      case (Inr v)
      then have "retry_loop operation currentModel retry totalAttempts lastError s = (Return v, s2)"
        using True c by (simp add: retry_loop_return)
      then show ?thesis using t2 b2 by auto
    next
      case (Inl e)
      show ?thesis
      proof (cases "isRetryableError e")
        case False
        then have "retry_loop operation currentModel retry totalAttempts lastError s
              = (Throw (Rethrown (as_Error e)), s2)"
          using True c Inl by (simp add: retry_loop_fatal)
        then show ?thesis using t2 b2 by auto
      next
        case re: True
        obtain d s3 where b: "calculateBackoffDelay retry s2 = (d, s3)"
          by (cases "calculateBackoffDelay retry s2")
        let ?s4 = "sleep Backoff (timeout_ms d) s3"
        let ?res = "retry_loop operation currentModel (retry + 1) (totalAttempts + 1) (Some (as_Error e)) ?s4"
        have c4: "currentModelIndex ?s4 = currentModelIndex s"
          using calculateBackoffDelay_fields(3) [OF b] call_operation_fields(3) [OF c] by simp
        have t4: "trace ?s4 = trace s @ (rl @ [?att]) @ [Slept Backoff (timeout_ms d)]"
          using calculateBackoffDelay_fields(5) [OF b] t2 by simp
        have step: "retry_loop operation currentModel retry totalAttempts lastError s = ?res"
          using True c Inl re b by (simp add: retry_loop_retry)
        from "1.IH" [OF True refl c [symmetric] _ re b [symmetric]] Inl
        obtain evs where ih: "trace (snd ?res) = trace ?s4 @ evs"
          "\<forall>a \<in> set (attempt_backends evs). a = (currentModelIndex s, currentModel)"
          using c4 by auto
        have "trace (snd ?res) = trace s @ ((rl @ [?att]) @ [Slept Backoff (timeout_ms d)] @ evs)"
          using ih(1) t4 by simp
        moreover have "\<forall>a \<in> set (attempt_backends ((rl @ [?att]) @ [Slept Backoff (timeout_ms d)] @ evs)).
                a = (currentModelIndex s, currentModel)"
          using b2 ih(2) by auto
        ultimately show ?thesis unfolding step by blast
      qed
    qed
  qed
qed

lemma chain_frame:
  "primaryModel s' = primaryModel s \<Longrightarrow> fallbackModels s' = fallbackModels s \<Longrightarrow> chain s' = chain s"
  by (simp add: chain_def split: option.splits)

lemma model_loop_backends:
  assumes "primaryModel s = Some p" and "currentModelIndex s \<le> length (fallbackModels s)"
  shows "\<exists>evs. trace (snd (model_loop operation a ta le s)) = trace s @ evs \<and>
     (\<forall>x \<in> set (attempt_backends evs). snd x = chain s ! fst x)"
  using assms
proof (induction operation a ta le s rule: model_loop_cases_induct)
  case (exit operation a ta le s)
  then show ?case by (simp add: model_loop_exit)
next
  case (uninitialized operation a ta le s e)
  then show ?case by (simp add: model_loop_uninitialized)
next
  case (return operation a ta le s m v s1)
  have m: "m = chain s ! currentModelIndex s"
    using getCurrentModel_chain [OF return.prems] return(2) by simp
  obtain evs where "trace s1 = trace s @ evs"
      "\<forall>x \<in> set (attempt_backends evs). x = (currentModelIndex s, m)"
    using retry_loop_backends [of operation m 0 ta le s] return(3) by auto
  then have "trace s1 = trace s @ evs \<and> (\<forall>x \<in> set (attempt_backends evs). snd x = chain s ! fst x)"
    using m by auto
  then show ?case unfolding model_loop_return [OF return(1,2,3)] by auto
next
  case (throw operation a ta le s m e s1)
  have m: "m = chain s ! currentModelIndex s"
    using getCurrentModel_chain [OF throw.prems] throw(2) by simp
  obtain evs where "trace s1 = trace s @ evs"
      "\<forall>x \<in> set (attempt_backends evs). x = (currentModelIndex s, m)"
    using retry_loop_backends [of operation m 0 ta le s] throw(3) by auto
  then have "trace s1 = trace s @ evs \<and> (\<forall>x \<in> set (attempt_backends evs). snd x = chain s ! fst x)"
    using m by auto
  then show ?case unfolding model_loop_throw [OF throw(1,2,3)] by auto
next
  case (break operation a ta le s m ta1 le1 s1)
  have m: "m = chain s ! currentModelIndex s"
    using getCurrentModel_chain [OF break.prems] break(2) by simp
  obtain evs where "trace s1 = trace s @ evs"
      "\<forall>x \<in> set (attempt_backends evs). x = (currentModelIndex s, m)"
    using retry_loop_backends [of operation m 0 ta le s] break(3) by auto
  then have "trace s1 = trace s @ evs \<and> (\<forall>x \<in> set (attempt_backends evs). snd x = chain s ! fst x)"
    using m by auto
  then show ?case unfolding model_loop_break [OF break(1,2,3,5)] by auto
next
  case (advance operation a ta le s m ta1 le1 s1 n)
  let ?s3 = "sleep ModelSwitch 2000 (s1\<lparr>currentModelIndex := currentModelIndex s1 + 1\<rparr>)"
  have m: "m = chain s ! currentModelIndex s"
    using getCurrentModel_chain [OF advance.prems] advance(2) by simp
  have fr: "fallbackModels s1 = fallbackModels s" "primaryModel s1 = primaryModel s"
     "currentModelIndex s1 = currentModelIndex s"
    using retry_loop_frame [of operation m 0 ta le s] advance(3) by simp_all
  obtain evs1 where 1: "trace s1 = trace s @ evs1"
      "\<forall>x \<in> set (attempt_backends evs1). x = (currentModelIndex s, m)"
    using retry_loop_backends [of operation m 0 ta le s] advance(3) by auto
  have ch: "chain ?s3 = chain s" using fr by (intro chain_frame) simp_all
  have "primaryModel ?s3 = Some p" "currentModelIndex ?s3 \<le> length (fallbackModels ?s3)"
    using fr advance(4) advance.prems by simp_all
  then obtain evs where 2: "trace (snd (model_loop operation (a + 1) ta1 le1 ?s3)) = trace ?s3 @ evs"
      "\<forall>x \<in> set (attempt_backends evs). snd x = chain s ! fst x"
    using advance.IH ch by auto
  have "trace (snd (model_loop operation (a + 1) ta1 le1 ?s3))
          = trace s @ (evs1 @ [Slept ModelSwitch 2000] @ evs)"
    using 1(1) 2(1) by simp
  moreover have "\<forall>x \<in> set (attempt_backends (evs1 @ [Slept ModelSwitch 2000] @ evs)).
       snd x = chain s ! fst x"
    using 1(2) 2(2) m by auto
  ultimately show ?case unfolding model_loop_next [OF advance(1,2,3,5)] by blast
qed

lemma execute_backends:
  assumes "primaryModel s = Some p" and "currentModelIndex s \<le> length (fallbackModels s)"
  shows "\<exists>evs. trace (snd (executeWithRetry operation operationName s)) = trace s @ evs \<and>
     (\<forall>x \<in> set (attempt_backends evs). snd x = chain s ! fst x)"
proof -
  obtain ex s1 where m: "model_loop operation 0 0 None s = (ex, s1)"
    by (cases "model_loop operation 0 0 None s")
  have "trace (snd (executeWithRetry operation operationName s)) = trace s1"
    using m by (cases ex) (simp_all add: executeWithRetry_def Let_def resetToMainModel_def)
  then show ?thesis using model_loop_backends [OF assms, of operation 0 0 None] m by simp
qed

lemma exhausted_run_backends:
  fixes operation :: "('w, 'a) operation"
  assumes ex: "executeWithRetry operation operationName s = (Inl (AllExhausted name ta k le), s')"
    and c: "currentModelIndex s \<le> length (fallbackModels s)"
  shows "\<forall>x \<in> set (attempt_backends (new_events s s')).
           currentModelIndex s \<le> fst x \<and> fst x < chain_length s \<and> snd x = chain s ! fst x"
    and "\<forall>i. currentModelIndex s \<le> i \<and> i < chain_length s \<longrightarrow>
           attempts_at i (chain s ! i) (new_events s s') = maxRetries RETRY_CONFIG"
    and "\<forall>m. m \<notin> set (drop (currentModelIndex s) (chain s)) \<longrightarrow> calls_to m (new_events s s') = 0"
    and "length (chain s) = chain_length s"
proof -
  obtain evs where tr: "trace s' = trace s @ evs"
    and su: "exhausted_summary (currentModelIndex s) (length (fallbackModels s)) 0 None ta le evs"
    using execute_exhausted_only(1) [OF ex c] by blast
  have ne: "new_events s s' = evs" using tr by simp
  obtain p where p: "primaryModel s = Some p"
  proof (cases "primaryModel s")
    case None
    then have "getCurrentModel s = Inl NotInitialized" by (simp add: getCurrentModel_def)
    then have "model_loop operation 0 0 None s = (Throw NotInitialized, s)"
      by (intro model_loop_uninitialized) simp_all
    then have False using ex by (simp add: executeWithRetry_def)
    then show ?thesis ..
  next
    case (Some p)
    then show ?thesis using that by blast
  qed
  show len: "length (chain s) = chain_length s" using p by (simp add: chain_def chain_length_def)
  have "\<exists>evs'. trace (snd (executeWithRetry operation operationName s)) = trace s @ evs' \<and>
     (\<forall>x \<in> set (attempt_backends evs'). snd x = chain s ! fst x)"
    using p c by (rule execute_backends)
  then have on_chain: "\<forall>x \<in> set (attempt_backends evs). snd x = chain s ! fst x"
    using ex tr by simp
  have count: "attempts_on i evs
        = (if currentModelIndex s \<le> i \<and> i \<le> length (fallbackModels s) then maxRetries RETRY_CONFIG else 0)" for i
    using su by (simp add: exhausted_summary_def)
  have range: "currentModelIndex s \<le> fst x \<and> fst x < chain_length s"
    if "x \<in> set (attempt_backends evs)" for x
  proof -
    have "x \<in> set (filter (\<lambda>a. fst a = fst x) (attempt_backends evs))" using that by simp
    then have "0 < length (filter (\<lambda>a. fst a = fst x) (attempt_backends evs))"
      by (rule length_pos_if_in_set)
    then have "0 < attempts_on (fst x) evs"
      unfolding attempts_on_backends .
    then show ?thesis using count [of "fst x"] by (simp add: chain_length_def split: if_splits)
  qed
  show "\<forall>x \<in> set (attempt_backends (new_events s s')).
           currentModelIndex s \<le> fst x \<and> fst x < chain_length s \<and> snd x = chain s ! fst x"
    unfolding ne using range on_chain by blast
  show "\<forall>i. currentModelIndex s \<le> i \<and> i < chain_length s \<longrightarrow>
           attempts_at i (chain s ! i) (new_events s s') = maxRetries RETRY_CONFIG"
  proof (intro allI impI)
    fix i assume i: "currentModelIndex s \<le> i \<and> i < chain_length s"
    have "filter (\<lambda>a. a = (i, chain s ! i)) (attempt_backends evs)
            = filter (\<lambda>a. fst a = i) (attempt_backends evs)"
      using on_chain by (intro filter_cong) (auto simp add: prod_eq_iff)
    then have "attempts_at i (chain s ! i) evs = attempts_on i evs"
      by (simp add: attempts_at_def attempts_on_backends)
    then show "attempts_at i (chain s ! i) (new_events s s') = maxRetries RETRY_CONFIG"
      unfolding ne using count [of i] i by (simp add: chain_length_def)
  qed
  show "\<forall>m. m \<notin> set (drop (currentModelIndex s) (chain s)) \<longrightarrow> calls_to m (new_events s s') = 0"
  proof (intro allI impI)
    fix m assume m: "m \<notin> set (drop (currentModelIndex s) (chain s))"
    have "snd x \<noteq> m" if "x \<in> set (attempt_backends evs)" for x
    proof -
      have r: "currentModelIndex s \<le> fst x" "fst x < length (chain s)"
        using range [OF that] len by simp_all
      have "drop (currentModelIndex s) (chain s) ! (fst x - currentModelIndex s) = chain s ! fst x"
        using r by simp
      moreover have "fst x - currentModelIndex s < length (drop (currentModelIndex s) (chain s))"
        using r by simp
      ultimately have "chain s ! fst x \<in> set (drop (currentModelIndex s) (chain s))"
        by (metis nth_mem)
      then show ?thesis using on_chain that m by auto
    qed
    then have "filter (\<lambda>a. snd a = m) (attempt_backends evs) = []"
      by (auto simp add: filter_empty_conv)
    then show "calls_to m (new_events s s') = 0" unfolding ne by (simp add: calls_to_def)
  qed
qed

text \<open>
  C2 (as amended). From whatever valid position the cursor has when \<^verbatim>\<open>executeWithRetry\<close>
  is called, the exhaustion error is raised only after every backend of the chain from
  that position to the end has been called \<open>maxRetries\<close> times in this call, at its own
  position, each call failing with a retryable error. Every call of the run is made on the
  backend that stands at the cursor position of the call, and these positions run from the
  starting position to the end of the chain: a backend that does not stand there is not
  called, and no call is made at an earlier position.
\<close>

theorem exhausted_after_budgets_from_cursor:
  fixes operation :: "('w, 'a) operation"
  assumes "executeWithRetry operation operationName s = (Inl (AllExhausted name ta k le), s')"
    and "currentModelIndex s \<le> length (fallbackModels s)"
  shows "(\<forall>i. currentModelIndex s \<le> i \<and> i < chain_length s \<longrightarrow>
              attempts_at i (chain s ! i) (new_events s s') = maxRetries RETRY_CONFIG)
       \<and> (\<forall>x \<in> set (attempt_backends (new_events s s')).
              currentModelIndex s \<le> fst x \<and> fst x < chain_length s \<and> snd x = chain s ! fst x)
       \<and> (\<forall>m. m \<notin> set (drop (currentModelIndex s) (chain s)) \<longrightarrow> calls_to m (new_events s s') = 0)
       \<and> (\<forall>i. currentModelIndex s \<le> i \<and> i < chain_length s \<longrightarrow>
              attempts_on i (new_events s s') = maxRetries RETRY_CONFIG)
       \<and> (\<forall>i. i < currentModelIndex s \<longrightarrow> attempts_on i (new_events s s') = 0)
       \<and> (\<forall>a \<in> set (attempt_outcomes (new_events s s')). \<exists>e. snd a = Some e \<and> isRetryableError e)
       \<and> ta = (chain_length s - currentModelIndex s) * maxRetries RETRY_CONFIG"
proof -
  obtain evs where tr: "trace s' = trace s @ evs"
    and su: "exhausted_summary (currentModelIndex s) (length (fallbackModels s)) 0 None ta le evs"
    using execute_exhausted_only(1) [OF assms] by blast
  have ne: "new_events s s' = evs" using tr by simp
  have old: "(\<forall>i. currentModelIndex s \<le> i \<and> i < chain_length s \<longrightarrow>
              attempts_on i (new_events s s') = maxRetries RETRY_CONFIG)
       \<and> (\<forall>i. i < currentModelIndex s \<longrightarrow> attempts_on i (new_events s s') = 0)
       \<and> (\<forall>a \<in> set (attempt_outcomes (new_events s s')). \<exists>e. snd a = Some e \<and> isRetryableError e)
       \<and> ta = (chain_length s - currentModelIndex s) * maxRetries RETRY_CONFIG"
    unfolding ne using su by (simp add: exhausted_summary_def chain_length_def)
  show ?thesis
    using exhausted_run_backends(1,2,3) [OF assms] old by (intro conjI) blast+
qed


lemma run_503_on_last_fallback:
  obtains ta le s' where
    "executeWithRetry always_503 ''generateWithText'' on_last_fallback
       = (Inl (AllExhausted ''generateWithText'' ta 1 le), s')"
    and "currentModelIndex on_last_fallback \<le> length (fallbackModels on_last_fallback)"
proof -
  have "isRetryableError (Error ''503 Service Unavailable'')" by code_simp
  then have a: "always_retryable always_503"
    unfolding always_retryable_def always_503_def by auto
  have p: "primaryModel on_last_fallback = Some (GenerativeModel ''gemini-2.5-pro'')"
    by (simp add: on_last_fallback_def fresh_state_def MODEL_CHAIN_def)
  have c: "currentModelIndex on_last_fallback \<le> length (fallbackModels on_last_fallback)"
    by (simp add: on_last_fallback_def fresh_state_def MODEL_CHAIN_def)
  show thesis using execute_always_exhausted [OF a p, of "''generateWithText''"] c that by blast
qed

lemma on_last_fallback_values:
  "currentModelIndex on_last_fallback = 3" "length (fallbackModels on_last_fallback) = 3"
  "chain_length on_last_fallback = 4" "maxRetries RETRY_CONFIG = 3"
  "chain on_last_fallback ! 3 = GenerativeModel ''gemini-1.5-pro''"
  "chain on_last_fallback ! 0 = GenerativeModel ''gemini-2.5-pro''"
  "drop 3 (chain on_last_fallback) = [GenerativeModel ''gemini-1.5-pro'']"
  by (simp_all add: on_last_fallback_def fresh_state_def MODEL_CHAIN_def chain_length_def
      chain_def RETRY_CONFIG_def)

text \<open>
  With the cursor on the last of four models: three calls at position 3, all on the last
  model, and none on the primary.
\<close>

theorem exhausted_after_budgets_from_cursor_witness:
  "attempts_at 3 (GenerativeModel ''gemini-1.5-pro'') (new_events on_last_fallback
       (snd (executeWithRetry always_503 ''generateWithText'' on_last_fallback))) = 3
   \<and> calls_to (GenerativeModel ''gemini-2.5-pro'') (new_events on_last_fallback
       (snd (executeWithRetry always_503 ''generateWithText'' on_last_fallback))) = 0
   \<and> attempts_on 3 (new_events on_last_fallback
       (snd (executeWithRetry always_503 ''generateWithText'' on_last_fallback))) = 3
   \<and> attempts_on 0 (new_events on_last_fallback
       (snd (executeWithRetry always_503 ''generateWithText'' on_last_fallback))) = 0"
proof -
  obtain ta le s' where ex: "executeWithRetry always_503 ''generateWithText'' on_last_fallback
           = (Inl (AllExhausted ''generateWithText'' ta 1 le), s')"
    and c: "currentModelIndex on_last_fallback \<le> length (fallbackModels on_last_fallback)"
    by (rule run_503_on_last_fallback)
  note v = on_last_fallback_values
  have "GenerativeModel ''gemini-2.5-pro'' \<notin> set (drop 3 (chain on_last_fallback))"
    unfolding v by simp
  note th = exhausted_after_budgets_from_cursor [OF ex c, unfolded v(1,3,4)]
  have 1: "attempts_at 3 (chain on_last_fallback ! 3) (new_events on_last_fallback s') = 3"
    using th by (elim conjE allE [of _ 3]) simp
  have 2: "calls_to (GenerativeModel ''gemini-2.5-pro'') (new_events on_last_fallback s') = 0"
    using th \<open>GenerativeModel ''gemini-2.5-pro'' \<notin> set (drop 3 (chain on_last_fallback))\<close>
    by blast
  have 3: "attempts_on 3 (new_events on_last_fallback s') = 3"
    using th by (elim conjE allE [of _ 3]) simp
  have 4: "attempts_on 0 (new_events on_last_fallback s') = 0"
    using th by (elim conjE allE [of _ 0]) simp
  show ?thesis unfolding ex using 1 2 3 4 v(5) by simp
qed

text \<open>
  C2 as stated fails: with the cursor on the last of the four models and a provider that
  always answers 503, the exhaustion error is raised after three attempts, all at cursor
  position 3 and all on the last model; the primary (position 0) is not called in this
  call.
\<close>

theorem exhausted_without_primary_counterexample:
  "fst (executeWithRetry always_503 ''generateWithText'' on_last_fallback)
     = Inl (AllExhausted ''generateWithText'' 3 1 (Some (Error ''503 Service Unavailable'')))
   \<and> attempt_backends (new_events on_last_fallback
        (snd (executeWithRetry always_503 ''generateWithText'' on_last_fallback)))
       = [(3, GenerativeModel ''gemini-1.5-pro''), (3, GenerativeModel ''gemini-1.5-pro''),
          (3, GenerativeModel ''gemini-1.5-pro'')]
   \<and> calls_to (GenerativeModel ''gemini-2.5-pro'') (new_events on_last_fallback
        (snd (executeWithRetry always_503 ''generateWithText'' on_last_fallback))) = 0
   \<and> attempts_on 0 (new_events on_last_fallback
        (snd (executeWithRetry always_503 ''generateWithText'' on_last_fallback))) = 0
   \<and> attempts_on 3 (new_events on_last_fallback
        (snd (executeWithRetry always_503 ''generateWithText'' on_last_fallback))) = 3
   \<and> currentModelIndex on_last_fallback = 3 \<and> chain_length on_last_fallback = 4
   \<and> chain on_last_fallback ! 0 = GenerativeModel ''gemini-2.5-pro''"
proof -
  let ?run = "executeWithRetry always_503 ''generateWithText'' on_last_fallback"
  obtain ta le s' where ex: "?run = (Inl (AllExhausted ''generateWithText'' ta 1 le), s')"
    and c: "currentModelIndex on_last_fallback \<le> length (fallbackModels on_last_fallback)"
    by (rule run_503_on_last_fallback)
  note v = on_last_fallback_values
  obtain evs where tr: "trace s' = trace on_last_fallback @ evs"
    and su: "exhausted_summary 3 3 0 None ta le evs"
    using execute_exhausted_only(1) [OF ex c] v by auto
  have ne: "new_events on_last_fallback s' = evs" using tr by simp
  have ta: "ta = 3" using su v by (simp add: exhausted_summary_def)
  have n0: "attempts_on 0 evs = 0" and n3: "attempts_on 3 evs = 3"
    using su v by (simp_all add: exhausted_summary_def)
  have len: "length (attempt_outcomes evs) = 3" using su v by (simp add: exhausted_summary_def)
  then have nonempty: "attempt_outcomes evs \<noteq> []" by auto
  have "outcomes_of_operation always_503 evs"
    using execute_outcomes [of always_503 "''generateWithText''" on_last_fallback] ex tr by simp
  moreover have "last (attempt_outcomes evs) \<in> set (attempt_outcomes evs)"
    using nonempty by simp
  ultimately have "snd (last (attempt_outcomes evs)) = Some (Error ''503 Service Unavailable'')"
    unfolding outcomes_of_operation_def always_503_def by auto
  then have le: "le = Some (Error ''503 Service Unavailable'')"
    using su nonempty by (simp add: exhausted_summary_def)
  have "x = (3, GenerativeModel ''gemini-1.5-pro'')" if "x \<in> set (attempt_backends evs)" for x
  proof -
    have r: "3 \<le> fst x \<and> fst x < 4 \<and> snd x = chain on_last_fallback ! fst x"
      using exhausted_run_backends(1) [OF ex c] that unfolding ne v(1,3) by blast
    then have f: "fst x = 3" by arith
    have "snd x = chain on_last_fallback ! fst x" using r by blast
    then have "snd x = GenerativeModel ''gemini-1.5-pro''" unfolding f v(5) .
    then show ?thesis using f by (simp add: prod_eq_iff)
  qed
  then have "\<forall>x \<in> set (attempt_backends evs). x = (3, GenerativeModel ''gemini-1.5-pro'')"
    by blast
  then have "replicate (length (attempt_backends evs)) (3, GenerativeModel ''gemini-1.5-pro'')
               = attempt_backends evs"
    by (intro replicate_length_same) simp
  moreover have "length (attempt_backends evs) = 3"
    using len arg_cong [OF attempt_backends_cursors [of evs], of length] by simp
  ultimately have ab: "attempt_backends evs
       = [(3, GenerativeModel ''gemini-1.5-pro''), (3, GenerativeModel ''gemini-1.5-pro''),
          (3, GenerativeModel ''gemini-1.5-pro'')]"
    by (simp add: eval_nat_numeral)
  have "GenerativeModel ''gemini-2.5-pro'' \<notin> set (drop 3 (chain on_last_fallback))"
    unfolding v by simp
  then have ct: "calls_to (GenerativeModel ''gemini-2.5-pro'') evs = 0"
    using exhausted_run_backends(3) [OF ex c] unfolding ne v(1) by blast
  show ?thesis unfolding ex using ta le n0 n3 ne v ab ct by simp
qed

subsection \<open>Fatal errors (C3)\<close>

text \<open>
  C3. When the first attempt of the operation throws an \<^verbatim>\<open>Error\<close> that is not retryable,
  \<^verbatim>\<open>executeWithRetry\<close> re-raises that error right after that single attempt: the call is
  the last event of the run, there is no backoff sleep and no switch to another model, and
  the cursor and the current backend are what they were before the call.
\<close>

theorem fatal_error_aborts_immediately:
  fixes operation :: "('w, 'a) operation"
  assumes "getCurrentModel s = Inr m"
    and "fst (operation (world s) m) = Inl (Error msg)"
    and "\<not> isRetryableError (Error msg)"
  shows "\<exists>s'. executeWithRetry operation operationName s = (Inl (Rethrown (Error msg)), s')
          \<and> message_of (Rethrown (Error msg)) = msg
          \<and> attempt_outcomes (new_events s s') = [(currentModelIndex s, Some (Error msg))]
          \<and> last (trace s') = Attempt (currentModelIndex s) m (Some (Error msg))
          \<and> sleeps_at Backoff (new_events s s') = []
          \<and> sleeps_at ModelSwitch (new_events s s') = []
          \<and> currentModelIndex s' = currentModelIndex s
          \<and> getCurrentModel s' = Inr m"
proof -
  obtain s' rl where r: "executeWithRetry operation operationName s = (Inl (Rethrown (as_Error (Error msg))), s')"
    "trace s' = trace s @ rl @ [Attempt (currentModelIndex s) m (Some (Error msg))]"
    "attempt_outcomes rl = []" "sleeps_at Backoff rl = []" "sleeps_at ModelSwitch rl = []"
    "currentModelIndex s' = currentModelIndex s" "getCurrentModel s' = Inr m"
    using execute_first_attempt_fatal [where operation = operation and s = s and m = m, OF assms]
    by blast
  have ne: "new_events s s' = rl @ [Attempt (currentModelIndex s) m (Some (Error msg))]"
    using r(2) by simp
  have "last (trace s') = Attempt (currentModelIndex s) m (Some (Error msg))"
    using r(2) by simp
  then show ?thesis using r ne by simp
qed

text \<open>A malformed request on the fresh state: one attempt on the primary, then the error.\<close>

theorem fatal_error_aborts_immediately_witness:
  "fst (executeWithRetry invalid_argument ''analyzeIdentity'' fresh_state)
      = Inl (Rethrown (Error ''invalid argument''))
   \<and> currentModelIndex (snd (executeWithRetry invalid_argument ''analyzeIdentity'' fresh_state)) = 0
   \<and> getCurrentModel (snd (executeWithRetry invalid_argument ''analyzeIdentity'' fresh_state))
      = Inr (GenerativeModel ''gemini-2.5-pro'')
   \<and> attempt_outcomes (new_events fresh_state
        (snd (executeWithRetry invalid_argument ''analyzeIdentity'' fresh_state)))
      = [(0, Some (Error ''invalid argument''))]
   \<and> sleeps_at Backoff (new_events fresh_state
        (snd (executeWithRetry invalid_argument ''analyzeIdentity'' fresh_state))) = []"
proof -
  have g: "getCurrentModel fresh_state = Inr (GenerativeModel ''gemini-2.5-pro'')"
    by (simp add: getCurrentModel_def fresh_state_def MODEL_CHAIN_def)
  have o: "fst (invalid_argument (world fresh_state) (GenerativeModel ''gemini-2.5-pro''))
             = Inl (Error ''invalid argument'')"
    by (simp add: invalid_argument_def)
  have n: "\<not> isRetryableError (Error ''invalid argument'')" by code_simp
  have c: "currentModelIndex fresh_state = 0" by (simp add: fresh_state_def)
  from fatal_error_aborts_immediately [where operation = invalid_argument and s = fresh_state
      and operationName = "''analyzeIdentity''", OF g o n]
  show ?thesis unfolding c by auto
qed

subsection \<open>Thrown values that are not Error instances (C10)\<close>

text \<open>
  C10. A thrown value that is not an \<^verbatim>\<open>Error\<close> instance is never retryable. When the
  first attempt throws one, \<^verbatim>\<open>executeWithRetry\<close> raises an \<^verbatim>\<open>Error\<close> whose message is
  the value's string form, right after that single attempt: no retry, no backoff sleep, no
  switch to another model, and the cursor stays where it was.
\<close>

theorem non_error_value_is_fatal:
  fixes operation :: "('w, 'a) operation"
  assumes "getCurrentModel s = Inr m"
    and "fst (operation (world s) m) = Inl (NonError v)"
  shows "\<not> isRetryableError (NonError v)
       \<and> (\<exists>s'. executeWithRetry operation operationName s = (Inl (Rethrown (Error v)), s')
          \<and> message_of (Rethrown (Error v)) = v
          \<and> attempt_outcomes (new_events s s') = [(currentModelIndex s, Some (NonError v))]
          \<and> last (trace s') = Attempt (currentModelIndex s) m (Some (NonError v))
          \<and> sleeps_at Backoff (new_events s s') = []
          \<and> sleeps_at ModelSwitch (new_events s s') = []
          \<and> currentModelIndex s' = currentModelIndex s
          \<and> getCurrentModel s' = Inr m)"
proof -
  have n: "\<not> isRetryableError (NonError v)" by simp
  obtain s' rl where r: "executeWithRetry operation operationName s = (Inl (Rethrown (as_Error (NonError v))), s')"
    "trace s' = trace s @ rl @ [Attempt (currentModelIndex s) m (Some (NonError v))]"
    "attempt_outcomes rl = []" "sleeps_at Backoff rl = []" "sleeps_at ModelSwitch rl = []"
    "currentModelIndex s' = currentModelIndex s" "getCurrentModel s' = Inr m"
    using execute_first_attempt_fatal [where operation = operation and s = s and m = m, OF assms n]
    by blast
  have ne: "new_events s s' = rl @ [Attempt (currentModelIndex s) m (Some (NonError v))]"
    using r(2) by simp
  have "last (trace s') = Attempt (currentModelIndex s) m (Some (NonError v))"
    using r(2) by simp
  then show ?thesis using r ne n by simp
qed

text \<open>
  A thrown string that would be retryable as an \<^verbatim>\<open>Error\<close> message is still fatal: one
  attempt, and the string comes back wrapped in an \<^verbatim>\<open>Error\<close>.
\<close>

theorem non_error_value_is_fatal_witness:
  "fst (executeWithRetry throws_string ''visualSweep'' fresh_state)
      = Inl (Rethrown (Error ''429 quota exceeded''))
   \<and> isRetryableError (Error ''429 quota exceeded'')
   \<and> \<not> isRetryableError (NonError ''429 quota exceeded'')
   \<and> currentModelIndex (snd (executeWithRetry throws_string ''visualSweep'' fresh_state)) = 0
   \<and> attempt_outcomes (new_events fresh_state
        (snd (executeWithRetry throws_string ''visualSweep'' fresh_state)))
      = [(0, Some (NonError ''429 quota exceeded''))]
   \<and> sleeps_at Backoff (new_events fresh_state
        (snd (executeWithRetry throws_string ''visualSweep'' fresh_state))) = []"
proof -
  have g: "getCurrentModel fresh_state = Inr (GenerativeModel ''gemini-2.5-pro'')"
    by (simp add: getCurrentModel_def fresh_state_def MODEL_CHAIN_def)
  have o: "fst (throws_string (world fresh_state) (GenerativeModel ''gemini-2.5-pro''))
             = Inl (NonError ''429 quota exceeded'')"
    by (simp add: throws_string_def)
  have y: "isRetryableError (Error ''429 quota exceeded'')" by code_simp
  have c: "currentModelIndex fresh_state = 0" by (simp add: fresh_state_def)
  from non_error_value_is_fatal [where operation = throws_string and s = fresh_state
      and operationName = "''visualSweep''", OF g o] y
  show ?thesis unfolding c by auto
qed

subsection \<open>Success on a fallback backend (C8)\<close>

text \<open>
  C8. When \<^verbatim>\<open>executeWithRetry\<close> returns a result, the last event of the call is the
  successful attempt, made at the position the cursor is left on and with the backend that
  is current afterwards. The cursor has moved forward once for every switch to the next
  model during the call and has not been reset: a call that starts on a fallback backend
  ends on a fallback backend, and the next call starts there.
\<close>

theorem success_leaves_cursor_in_place:
  fixes operation :: "('w, 'a) operation"
  assumes "executeWithRetry operation operationName s = (Inr v, s')"
  shows "\<exists>evs m. new_events s s' = evs @ [Attempt (currentModelIndex s') m None]
          \<and> getCurrentModel s' = Inr m
          \<and> currentModelIndex s' = currentModelIndex s + length (sleeps_at ModelSwitch evs)
          \<and> currentModelIndex s \<le> currentModelIndex s'
          \<and> (0 < currentModelIndex s \<longrightarrow> currentModelIndex s' \<noteq> 0)"
proof -
  obtain ex s1 where m: "model_loop operation 0 0 None s = (ex, s1)"
    by (cases "model_loop operation 0 0 None s")
  have "ex = Return v \<and> s1 = s'"
    using assms m by (cases ex) (simp_all add: executeWithRetry_def Let_def)
  then have ml: "model_loop operation 0 0 None s = (Return v, s')" using m by simp
  from model_loop_returned [OF ml] obtain evs m' where r: "trace s' = trace s @ evs @ [Attempt (currentModelIndex s') m' None]"
      "getCurrentModel s' = Inr m'"
      "currentModelIndex s' = currentModelIndex s + length (sleeps_at ModelSwitch evs)"
    by blast
  have "new_events s s' = evs @ [Attempt (currentModelIndex s') m' None]"
    using r(1) by simp
  then show ?thesis using r(2,3) by auto
qed

text \<open>With the cursor on the last fallback and a provider that answers: the cursor stays.\<close>

theorem success_leaves_cursor_in_place_witness:
  "fst (executeWithRetry answers_ok ''generatePanelSpec'' on_last_fallback) = Inr ''ok''
   \<and> currentModelIndex on_last_fallback = 3
   \<and> 3 \<le> currentModelIndex (snd (executeWithRetry answers_ok ''generatePanelSpec'' on_last_fallback))
   \<and> currentModelIndex (snd (executeWithRetry answers_ok ''generatePanelSpec'' on_last_fallback)) \<noteq> 0"
proof -
  have g: "getCurrentModel on_last_fallback = Inr (GenerativeModel ''gemini-1.5-pro'')"
    by (simp add: getCurrentModel_def on_last_fallback_def fresh_state_def MODEL_CHAIN_def)
  have o: "fst (answers_ok (world on_last_fallback) (GenerativeModel ''gemini-1.5-pro'')) = Inr ''ok''"
    by (simp add: answers_ok_def)
  obtain s' where ex: "executeWithRetry answers_ok ''generatePanelSpec'' on_last_fallback = (Inr ''ok'', s')"
    using execute_first_attempt_success [where operation = answers_ok and s = on_last_fallback, OF g o]
    by blast
  have c: "currentModelIndex on_last_fallback = 3"
    by (simp add: on_last_fallback_def fresh_state_def)
  from success_leaves_cursor_in_place [OF ex]
  show ?thesis unfolding ex c by auto
qed

subsection \<open>Rate limiting (C9)\<close>

text \<open>
  C9. Every call of \<^verbatim>\<open>enforceRateLimit\<close> records the time at which it completes as the
  new last-call instant, and completes no earlier than \<open>minDelayBetweenCallsMs\<close> (500 ms)
  after the previous last-call instant. So of two calls made back to back, the second
  suspends for the whole 500 ms and completes at least 500 ms after the first completed.
\<close>

theorem rate_limit_spacing:
  "lastCallTime (enforceRateLimit s) = Date_now (enforceRateLimit s)
   \<and> lastCallTime s + minDelayBetweenCallsMs \<le> Date_now (enforceRateLimit s)
   \<and> Date_now (enforceRateLimit s) + minDelayBetweenCallsMs
        \<le> Date_now (enforceRateLimit (enforceRateLimit s))
   \<and> new_events (enforceRateLimit s) (enforceRateLimit (enforceRateLimit s))
        = [Slept RateLimit minDelayBetweenCallsMs]
   \<and> lastCallTime (enforceRateLimit (enforceRateLimit s))
        = Date_now (enforceRateLimit (enforceRateLimit s))
   \<and> minDelayBetweenCallsMs = 500"
proof -
  have a: "lastCallTime (enforceRateLimit t) = Date_now (enforceRateLimit t)" for t :: "'a state"
    by (simp add: enforceRateLimit_def Let_def Date_now_def)
  have b: "lastCallTime t + minDelayBetweenCallsMs \<le> Date_now (enforceRateLimit t)" for t :: "'a state"
    by (simp add: enforceRateLimit_def Let_def Date_now_def sleep_def max_def)
  have c: "trace (enforceRateLimit t) = trace t @ [Slept RateLimit minDelayBetweenCallsMs]"
    if "lastCallTime t = Date_now t" for t :: "'a state"
    using that by (simp add: enforceRateLimit_def Let_def Date_now_def minDelayBetweenCallsMs_def)
  have "new_events (enforceRateLimit s) (enforceRateLimit (enforceRateLimit s))
        = [Slept RateLimit minDelayBetweenCallsMs]"
    using c [OF a [of s]] by simp
  then show ?thesis
    using a [of s] a [of "enforceRateLimit s"] b [of s] b [of "enforceRateLimit s"]
    by (simp add: minDelayBetweenCallsMs_def)
qed

text \<open>Two calls in a row on the fresh state: the second returns 500 ms after the first.\<close>

theorem rate_limit_spacing_witness:
  "Date_now (enforceRateLimit fresh_state) = 1000000
   \<and> Date_now (enforceRateLimit (enforceRateLimit fresh_state)) = 1000500
   \<and> lastCallTime (enforceRateLimit (enforceRateLimit fresh_state)) = 1000500"
proof -
  have 1: "Date_now (enforceRateLimit fresh_state) = 1000000"
    by (simp add: enforceRateLimit_def Let_def Date_now_def fresh_state_def minDelayBetweenCallsMs_def)
  have 2: "Date_now (enforceRateLimit (enforceRateLimit fresh_state)) = 1000500"
    by (simp add: enforceRateLimit_def Let_def Date_now_def fresh_state_def minDelayBetweenCallsMs_def sleep_def)
  from rate_limit_spacing [of fresh_state] 1 2 show ?thesis by simp
qed

subsection \<open>Extraction of JSON (C5)\<close>

lemma find_first_fresh:
  assumes "pat \<noteq> []" and "hd pat \<notin> set pre"
  shows "find_first pat (pre @ pat @ rest) = Some (pre, rest)"
  using assms(2)
proof (induction pre)
  case Nil
  obtain p ps where p: "pat = p # ps" using assms(1) by (cases pat) auto
  show ?case by (simp add: p)
next
  case (Cons c pre)
  obtain p ps where p: "pat = p # ps" using assms(1) by (cases pat) auto
  have "c \<noteq> p" using Cons.prems p by auto
  then have "\<not> prefix pat (c # pre @ pat @ rest)" by (simp add: p)
  moreover have "find_first pat (pre @ pat @ rest) = Some (pre, rest)"
    using Cons by simp
  ultimately show ?case by simp
qed

lemma find_first_absent: "\<not> js_includes str pat \<Longrightarrow> find_first pat str = None"
  by (induction str) auto

lemma fence_facts: "fence \<noteq> []" "hd fence = CHR 0x60" "set fence = {CHR 0x60}"
  by (simp_all add: fence_def)

lemma not_space_backquote: "\<not> is_space (CHR 0x60)"
  by (simp add: is_space_def)

lemma prefix_json_before_fence:
  assumes "CHR 0x60 \<notin> set body"
  shows "prefix ''json'' (body @ fence @ post) \<longleftrightarrow> prefix ''json'' body"
proof
  assume "prefix ''json'' (body @ fence @ post)"
  then have "prefix ''json'' body \<or> (\<exists>us. ''json'' = body @ us \<and> prefix us (fence @ post))"
    by (simp only: prefix_append)
  then show "prefix ''json'' body"
  proof
    assume "prefix ''json'' body"
    then show ?thesis .
  next
    assume "\<exists>us. ''json'' = body @ us \<and> prefix us (fence @ post)"
    then obtain us where us: "''json'' = body @ us" "prefix us (fence @ post)" by blast
    show ?thesis
    proof (cases us)
      case Nil
      then show ?thesis using us(1) by simp
    next
      case (Cons u us')
      have "u = CHR 0x60" using us(2) Cons by (simp add: fence_def)
      moreover have "u \<in> set ''json''" using us(1) Cons by (metis in_set_conv_decomp)
      ultimately show ?thesis by simp
    qed
  qed
next
  assume "prefix ''json'' body"
  then show "prefix ''json'' (body @ fence @ post)" by (rule prefix_prefix)
qed

lemma codeBlockMatch_fenced:
  assumes "CHR 0x60 \<notin> set pre" and "CHR 0x60 \<notin> set body"
  shows "codeBlockMatch (pre @ fence @ body @ fence @ post) = Some (dropWhile is_space (untag body))"
proof -
  have 1: "find_first fence (pre @ fence @ body @ fence @ post) = Some (pre, body @ fence @ post)"
    using find_first_fresh [of fence pre "body @ fence @ post"] assms(1) fence_facts by simp
  have 2: "(if prefix ''json'' (body @ fence @ post) then drop 4 (body @ fence @ post)
            else body @ fence @ post) = untag body @ fence @ post"
  proof (cases "prefix ''json'' body")
    case True
    then have "4 \<le> length body" by (auto simp add: prefix_def)
    then show ?thesis using True prefix_json_before_fence [OF assms(2)] by (simp add: untag_def)
  next
    case False
    then show ?thesis using prefix_json_before_fence [OF assms(2)] by (simp add: untag_def)
  qed
  have 3: "dropWhile is_space (untag body @ fence @ post)
             = dropWhile is_space (untag body) @ fence @ post"
  proof (cases "\<forall>c \<in> set (untag body). is_space c")
    case True
    then have "dropWhile is_space (untag body) = []" by simp
    moreover have "dropWhile is_space (untag body @ fence @ post) = dropWhile is_space (fence @ post)"
      using True by (simp add: dropWhile_append2)
    moreover have "dropWhile is_space (fence @ post) = fence @ post"
      using not_space_backquote by (simp add: fence_def)
    ultimately show ?thesis by simp
  next
    case False
    then obtain x where "x \<in> set (untag body)" "\<not> is_space x" by blast
    then show ?thesis by (rule dropWhile_append1)
  qed
  have "set (dropWhile is_space (untag body)) \<subseteq> set body"
    using set_dropWhileD [of _ is_space "untag body"] set_drop_subset [of 4 body]
    by (auto simp add: untag_def split: if_splits)
  then have "CHR 0x60 \<notin> set (dropWhile is_space (untag body))" using assms(2) by auto
  then have 4: "find_first fence (dropWhile is_space (untag body) @ fence @ post)
          = Some (dropWhile is_space (untag body), post)"
    using find_first_fresh [of fence "dropWhile is_space (untag body)" post] fence_facts by simp
  show ?thesis
    unfolding codeBlockMatch_def 1 by (simp add: Let_def 2 3 4)
qed

lemma trim_dropWhile: "trim (dropWhile is_space str) = trim str"
  by (simp add: trim_def)

lemma jsonMatch_braces:
  assumes "CHR ''{'' \<notin> set before" and "CHR ''}'' \<notin> set after"
  shows "jsonMatch (before @ ''{'' @ mid @ ''}'' @ after) = Some (''{'' @ mid @ ''}'')"
proof -
  have 1: "dropWhile (\<lambda>c. c \<noteq> CHR ''{'') (before @ ''{'' @ mid @ ''}'' @ after)
             = ''{'' @ mid @ ''}'' @ after"
    using assms(1) by (auto simp add: dropWhile_append3 dropWhile_eq_Nil_conv)
  have "rev (''{'' @ mid @ ''}'' @ after) = rev after @ CHR ''}'' # (rev mid @ ''{'')" by simp
  moreover have "dropWhile (\<lambda>c. c \<noteq> CHR ''}'') (rev after @ CHR ''}'' # (rev mid @ ''{''))
                  = CHR ''}'' # (rev mid @ ''{'')"
    using assms(2) by (auto simp add: dropWhile_append3 dropWhile_eq_Nil_conv)
  ultimately have 2: "rev (dropWhile (\<lambda>c. c \<noteq> CHR ''}'') (rev (''{'' @ mid @ ''}'' @ after)))
                  = ''{'' @ mid @ ''}''"
    by simp
  show ?thesis unfolding jsonMatch_def Let_def 1 2 by simp
qed

lemma jsonMatch_no_brace:
  assumes "CHR ''{'' \<notin> set str"
  shows "jsonMatch str = None"
proof -
  have e: "dropWhile (\<lambda>c. c \<noteq> CHR ''{'') str = []"
    using assms by (auto simp add: dropWhile_eq_Nil_conv)
  show ?thesis unfolding jsonMatch_def Let_def e by simp
qed

lemma codeBlockMatch_no_fence: "\<not> js_includes text fence \<Longrightarrow> codeBlockMatch text = None"
  by (simp add: codeBlockMatch_def find_first_absent)

lemma extractJson_fenced:
  assumes "CHR 0x60 \<notin> set pre" and "CHR 0x60 \<notin> set body"
  shows "extractJson JSON_parse (pre @ fence @ body @ fence @ post)
           = JSON_parse_result (JSON_parse (trim (untag body)))"
  by (simp add: extractJson_def codeBlockMatch_fenced [OF assms] trim_dropWhile)

lemma extractJson_braces:
  assumes "\<not> js_includes (before @ ''{'' @ mid @ ''}'' @ after) fence"
    and "CHR ''{'' \<notin> set before" and "CHR ''}'' \<notin> set after"
  shows "extractJson JSON_parse (before @ ''{'' @ mid @ ''}'' @ after)
           = JSON_parse_result (JSON_parse (''{'' @ mid @ ''}''))"
  unfolding extractJson_def codeBlockMatch_no_fence [OF assms(1)] jsonMatch_braces [OF assms(2,3)]
  by simp

lemma extractJson_nothing:
  assumes "\<not> js_includes str fence" and "CHR ''{'' \<notin> set str"
  shows "extractJson JSON_parse str = Inl NoValidJsonFound"
  unfolding extractJson_def codeBlockMatch_no_fence [OF assms(1)] jsonMatch_no_brace [OF assms(2)]
  by simp

lemma find_first_sound:
  assumes "pat \<noteq> []" and "find_first pat str = Some (pre, rest)"
  shows "first_occurrence pat str pre rest"
  using assms(2)
proof (induction str arbitrary: pre rest)
  case Nil
  then show ?case using assms(1) by simp
next
  case (Cons c cs)
  show ?case
  proof (cases "prefix pat (c # cs)")
    case True
    then have "pre = []" "rest = drop (length pat) (c # cs)" using Cons.prems by auto
    moreover have "c # cs = pat @ drop (length pat) (c # cs)"
      using True by (metis append_eq_conv_conj prefix_def)
    ultimately show ?thesis by (simp add: first_occurrence_def)
  next
    case False
    then obtain b where b: "find_first pat cs = Some (b, rest)" "pre = c # b"
      using Cons.prems by (auto split: option.splits)
    have fo: "first_occurrence pat cs b rest" using Cons.IH [OF b(1)] .
    have 1: "c # cs = pre @ pat @ rest" using fo b(2) by (simp add: first_occurrence_def)
    have 2: "length pre \<le> length pre'" if e: "c # cs = pre' @ pat @ rest'" for pre' rest'
    proof (cases pre')
      case Nil
      then have "prefix pat (c # cs)" using e by (simp add: prefix_def)
      then show ?thesis using False by simp
    next
      case (Cons d ds)
      then have "cs = ds @ pat @ rest'" using e by simp
      then have "length b \<le> length ds" using fo unfolding first_occurrence_def by blast
      then show ?thesis using Cons b(2) by simp
    qed
    show ?thesis unfolding first_occurrence_def using 1 2 by blast
  qed
qed

lemma find_first_complete:
  assumes "pat \<noteq> []"
  shows "\<exists>pre rest. find_first pat (pre' @ pat @ rest') = Some (pre, rest)"
proof (induction pre')
  case Nil
  obtain p ps where p: "pat = p # ps" using assms by (cases pat) auto
  show ?case by (simp add: p)
next
  case (Cons c pre')
  then show ?case by (auto split: option.splits)
qed

lemma first_occurrence_unique:
  assumes "first_occurrence pat str p1 r1" and "first_occurrence pat str p2 r2"
  shows "p1 = p2 \<and> r1 = r2"
proof -
  have e: "p1 @ pat @ r1 = p2 @ pat @ r2" "str = p1 @ pat @ r1" "str = p2 @ pat @ r2"
    using assms by (simp_all add: first_occurrence_def)
  have "length p1 \<le> length p2" using assms(1) e(3) unfolding first_occurrence_def by blast
  moreover have "length p2 \<le> length p1" using assms(2) e(2) unfolding first_occurrence_def by blast
  ultimately have "length p1 = length p2" by simp
  then show ?thesis using e(1) by simp
qed

lemma find_first_iff:
  assumes "pat \<noteq> []"
  shows "find_first pat str = Some (pre, rest) \<longleftrightarrow> first_occurrence pat str pre rest"
proof
  assume "find_first pat str = Some (pre, rest)"
  then show "first_occurrence pat str pre rest" by (rule find_first_sound [OF assms])
next
  assume fo: "first_occurrence pat str pre rest"
  then have "str = pre @ pat @ rest" by (simp add: first_occurrence_def)
  then obtain p r where f: "find_first pat str = Some (p, r)"
    using find_first_complete [OF assms, of pre rest] by auto
  then have "first_occurrence pat str p r" by (rule find_first_sound [OF assms])
  then have "p = pre \<and> r = rest" using fo by (rule first_occurrence_unique)
  then show "find_first pat str = Some (pre, rest)" using f by simp
qed

lemma codeBlockMatch_iff: "codeBlockMatch str = Some group1 \<longleftrightarrow> fenced_block str group1"
proof
  assume c: "codeBlockMatch str = Some group1"
  then obtain pre rest where 1: "find_first fence str = Some (pre, rest)"
    by (auto simp add: codeBlockMatch_def split: option.splits)
  then obtain post where 2: "find_first fence (dropWhile is_space (untag rest)) = Some (group1, post)"
    using c by (auto simp add: codeBlockMatch_def Let_def untag_def split: option.splits)
  show "fenced_block str group1"
    unfolding fenced_block_def
    using find_first_sound [OF fence_facts(1) 1] find_first_sound [OF fence_facts(1) 2] by blast
next
  assume "fenced_block str group1"
  then obtain pre rest post where fo: "first_occurrence fence str pre rest"
      "first_occurrence fence (dropWhile is_space (untag rest)) group1 post"
    unfolding fenced_block_def by blast
  have 1: "find_first fence str = Some (pre, rest)"
    using fo(1) find_first_iff [OF fence_facts(1)] by simp
  have 2: "find_first fence (dropWhile is_space (untag rest)) = Some (group1, post)"
    using fo(2) find_first_iff [OF fence_facts(1)] by simp
  show "codeBlockMatch str = Some group1"
    using 1 2 by (simp add: codeBlockMatch_def Let_def untag_def)
qed

lemma jsonMatch_iff: "jsonMatch str = Some group0 \<longleftrightarrow> brace_span str group0"
proof
  assume j: "jsonMatch str = Some group0"
  define from_brace where "from_brace = dropWhile (\<lambda>c. c \<noteq> CHR ''{'') str"
  define before where "before = takeWhile (\<lambda>c. c \<noteq> CHR ''{'') str"
  have mem: "CHR ''}'' \<in> set from_brace"
    using j unfolding jsonMatch_def Let_def from_brace_def by (simp split: if_splits)
  then have ne: "from_brace \<noteq> []" by auto
  then have "hd from_brace = CHR ''{''"
    unfolding from_brace_def using hd_dropWhile [of "\<lambda>c. c \<noteq> CHR ''{''" str] by simp
  then obtain tl where tl: "from_brace = CHR ''{'' # tl" using ne by (cases from_brace) auto
  then have "CHR ''}'' \<in> set tl" using mem by simp
  then obtain mid after where ma: "tl = mid @ CHR ''}'' # after" "CHR ''}'' \<notin> set after"
    using split_list_last by fastforce
  have s: "str = before @ ''{'' @ mid @ ''}'' @ after"
    using takeWhile_dropWhile_id [of "\<lambda>c. c \<noteq> CHR ''{''" str] tl ma(1)
    unfolding before_def [symmetric] from_brace_def [symmetric] by simp
  have b: "CHR ''{'' \<notin> set before"
    unfolding before_def using set_takeWhileD [of _ "\<lambda>c. c \<noteq> CHR ''{''" str] by blast
  have "jsonMatch str = Some (''{'' @ mid @ ''}'')"
    unfolding s using b ma(2) by (rule jsonMatch_braces)
  then have "group0 = ''{'' @ mid @ ''}''" using j by simp
  then show "brace_span str group0" unfolding brace_span_def using s b ma(2) by blast
next
  assume "brace_span str group0"
  then obtain before mid after where s: "str = before @ ''{'' @ mid @ ''}'' @ after"
      "CHR ''{'' \<notin> set before" "CHR ''}'' \<notin> set after" "group0 = ''{'' @ mid @ ''}''"
    unfolding brace_span_def by blast
  show "jsonMatch str = Some group0"
    unfolding s(1) s(4) using s(2,3) by (rule jsonMatch_braces)
qed

lemma codeBlockMatch_None_iff: "codeBlockMatch str = None \<longleftrightarrow> (\<forall>group1. \<not> fenced_block str group1)"
  using codeBlockMatch_iff [of str] by (cases "codeBlockMatch str") auto

lemma jsonMatch_None_iff: "jsonMatch str = None \<longleftrightarrow> (\<forall>group0. \<not> brace_span str group0)"
  using jsonMatch_iff [of str] by (cases "jsonMatch str") auto

text \<open>
  C5 (as amended). For every input text and every behaviour of \<^verbatim>\<open>JSON.parse\<close>, one of three
  cases holds and decides the call. When the text holds a fenced block (after the first
  fence, its optional \<open>json\<close> tag and the white space behind it, another fence follows),
  \<^verbatim>\<open>extractJson\<close> parses the trimmed text between the two, and that parse decides the
  call: its value is returned, and its \<^verbatim>\<open>SyntaxError\<close> is raised without a second attempt
  on the raw text. When the text holds no fenced block (no fence, or no fence after the
  first) but an opening brace with a closing brace after it, the substring from the first
  opening brace to the last closing brace is parsed, and that parse decides the call. When
  the text holds neither, the error \<^verbatim>\<open>No valid JSON found in response\<close> is raised. A
  fenced block with \<^verbatim>\<open>{"a":1}\<close> and the unfenced text \<^verbatim>\<open>Here is data: {"a":1} done\<close>
  both give what \<^verbatim>\<open>JSON.parse\<close> gives for \<^verbatim>\<open>{"a":1}\<close>; a text with no fence and no brace
  raises the error.
\<close>

theorem extractJson_tiers:
  "(fenced_block str interior \<longrightarrow>
      extractJson JSON_parse str = JSON_parse_result (JSON_parse (trim interior)))
   \<and> ((\<forall>g. \<not> fenced_block str g) \<and> brace_span str object \<longrightarrow>
      extractJson JSON_parse str = JSON_parse_result (JSON_parse object))
   \<and> ((\<forall>g. \<not> fenced_block str g) \<and> (\<forall>g. \<not> brace_span str g) \<longrightarrow>
      extractJson JSON_parse str = Inl NoValidJsonFound)
   \<and> extractJson JSON_parse (fence @ ''json\<newline>{\"a\":1}\<newline>'' @ fence)
        = JSON_parse_result (JSON_parse ''{\"a\":1}'')
   \<and> extractJson JSON_parse ''Here is data: {\"a\":1} done''
        = JSON_parse_result (JSON_parse ''{\"a\":1}'')
   \<and> extractJson JSON_parse ''Sorry, I cannot describe this image.'' = Inl NoValidJsonFound"
proof (intro conjI impI)
  assume "fenced_block str interior"
  then have "codeBlockMatch str = Some interior" by (rule iffD2 [OF codeBlockMatch_iff])
  then show "extractJson JSON_parse str = JSON_parse_result (JSON_parse (trim interior))"
    by (simp add: extractJson_def)
next
  assume "(\<forall>g. \<not> fenced_block str g) \<and> brace_span str object"
  then have "codeBlockMatch str = None" "jsonMatch str = Some object"
    using codeBlockMatch_None_iff [of str] jsonMatch_iff [of str object] by blast+
  then show "extractJson JSON_parse str = JSON_parse_result (JSON_parse object)"
    by (simp add: extractJson_def)
next
  assume "(\<forall>g. \<not> fenced_block str g) \<and> (\<forall>g. \<not> brace_span str g)"
  then have "codeBlockMatch str = None" "jsonMatch str = None"
    using codeBlockMatch_None_iff [of str] jsonMatch_None_iff [of str] by blast+
  then show "extractJson JSON_parse str = Inl NoValidJsonFound"
    by (simp add: extractJson_def)
next
  have "trim (untag ''json\<newline>{\"a\":1}\<newline>'') = ''{\"a\":1}''" by code_simp
  moreover have "CHR 0x60 \<notin> set ''json\<newline>{\"a\":1}\<newline>''" by simp
  ultimately show "extractJson JSON_parse (fence @ ''json\<newline>{\"a\":1}\<newline>'' @ fence)
        = JSON_parse_result (JSON_parse ''{\"a\":1}'')"
    using extractJson_fenced [of "[]" "''json\<newline>{\"a\":1}\<newline>''" JSON_parse "[]"] by simp
next
  have "\<not> js_includes ''Here is data: {\"a\":1} done'' fence" by code_simp
  then have "\<not> js_includes (''Here is data: '' @ ''{'' @ ''\"a\":1'' @ ''}'' @ '' done'') fence" by simp
  then have "extractJson JSON_parse (''Here is data: '' @ ''{'' @ ''\"a\":1'' @ ''}'' @ '' done'')
           = JSON_parse_result (JSON_parse (''{'' @ ''\"a\":1'' @ ''}''))"
    by (rule extractJson_braces) simp_all
  then show "extractJson JSON_parse ''Here is data: {\"a\":1} done''
        = JSON_parse_result (JSON_parse ''{\"a\":1}'')" by simp
next
  have "\<not> js_includes ''Sorry, I cannot describe this image.'' fence" by code_simp
  then show "extractJson JSON_parse ''Sorry, I cannot describe this image.'' = Inl NoValidJsonFound"
    by (rule extractJson_nothing) simp
qed

text \<open>
  The three cases with the sample parser: a fenced block that is not JSON (first case), the
  unfenced text with an object (second case), a text without fence or brace (third case);
  and the fenced example.
\<close>

theorem extractJson_tiers_witness:
  "extractJson sample_JSON_parse (fence @ ''json\<newline>{\"a\":1}\<newline>'' @ fence) = Inr [(''a'', 1)]
   \<and> extractJson sample_JSON_parse ''Here is data: {\"a\":1} done'' = Inr [(''a'', 1)]
   \<and> extractJson sample_JSON_parse ''Sorry, I cannot describe this image.'' = Inl NoValidJsonFound
   \<and> extractJson sample_JSON_parse (''Result: '' @ fence @ '' not json '' @ fence @ '' end'')
       = Inl SyntaxError"
proof -
  note t1 = extractJson_tiers [where JSON_parse = sample_JSON_parse
      and str = "''Result: '' @ fence @ '' not json '' @ fence @ '' end''"
      and interior = "''not json ''" and object = "[]"]
  note t2 = extractJson_tiers [where JSON_parse = sample_JSON_parse
      and str = "''Here is data: {\"a\":1} done''" and interior = "[]" and object = "''{\"a\":1}''"]
  note t3 = extractJson_tiers [where JSON_parse = sample_JSON_parse
      and str = "''Sorry, I cannot describe this image.''" and interior = "[]" and object = "[]"]
  have 1: "extractJson sample_JSON_parse (fence @ ''json\<newline>{\"a\":1}\<newline>'' @ fence) = Inr [(''a'', 1)]"
    using t1 by (simp add: sample_JSON_parse_def JSON_parse_result_def)
  have "codeBlockMatch ''Here is data: {\"a\":1} done'' = None" by code_simp
  then have n2: "\<forall>g. \<not> fenced_block ''Here is data: {\"a\":1} done'' g"
    by (rule iffD1 [OF codeBlockMatch_None_iff])
  have "jsonMatch ''Here is data: {\"a\":1} done'' = Some ''{\"a\":1}''" by code_simp
  then have b2: "brace_span ''Here is data: {\"a\":1} done'' ''{\"a\":1}''"
    by (rule iffD1 [OF jsonMatch_iff])
  have "extractJson sample_JSON_parse ''Here is data: {\"a\":1} done''
          = JSON_parse_result (sample_JSON_parse ''{\"a\":1}'')"
    using t2 n2 b2 by blast
  then have 2: "extractJson sample_JSON_parse ''Here is data: {\"a\":1} done'' = Inr [(''a'', 1)]"
    by (simp add: sample_JSON_parse_def JSON_parse_result_def)
  have "codeBlockMatch ''Sorry, I cannot describe this image.'' = None" by code_simp
  then have n3: "\<forall>g. \<not> fenced_block ''Sorry, I cannot describe this image.'' g"
    by (rule iffD1 [OF codeBlockMatch_None_iff])
  have "jsonMatch ''Sorry, I cannot describe this image.'' = None" by code_simp
  then have b3: "\<forall>g. \<not> brace_span ''Sorry, I cannot describe this image.'' g"
    by (rule iffD1 [OF jsonMatch_None_iff])
  have 3: "extractJson sample_JSON_parse ''Sorry, I cannot describe this image.'' = Inl NoValidJsonFound"
    using t3 n3 b3 by blast
  have "codeBlockMatch (''Result: '' @ fence @ '' not json '' @ fence @ '' end'') = Some ''not json ''"
    by code_simp
  then have f4: "fenced_block (''Result: '' @ fence @ '' not json '' @ fence @ '' end'') ''not json ''"
    by (rule iffD1 [OF codeBlockMatch_iff])
  have u: "trim ''not json '' = ''not json''" by code_simp
  have "extractJson sample_JSON_parse (''Result: '' @ fence @ '' not json '' @ fence @ '' end'')
       = JSON_parse_result (sample_JSON_parse (trim ''not json ''))"
    using t1 f4 by blast
  then have 4: "extractJson sample_JSON_parse (''Result: '' @ fence @ '' not json '' @ fence @ '' end'')
       = Inl SyntaxError"
    unfolding u by (simp add: sample_JSON_parse_def JSON_parse_result_def)
  show ?thesis using 1 2 3 4 by (intro conjI)
qed

text \<open>
  C5 as stated fails twice. A fenced block that does not parse, followed by the object
  \<^verbatim>\<open>{"a":1}\<close>: the brace expression would match the object and it parses, but the call
  raises \<^verbatim>\<open>SyntaxError\<close>. And two objects in one unfenced text: the brace expression
  matches from the first opening brace to the last closing brace, not the first balanced
  object, and the call raises \<^verbatim>\<open>SyntaxError\<close>.
\<close>

theorem extractJson_no_second_tier_counterexample:
  "extractJson sample_JSON_parse (fence @ ''not json'' @ fence @ '' {\"a\":1}'') = Inl SyntaxError
   \<and> jsonMatch (fence @ ''not json'' @ fence @ '' {\"a\":1}'') = Some ''{\"a\":1}''
   \<and> sample_JSON_parse ''{\"a\":1}'' = Some [(''a'', 1)]
   \<and> extractJson sample_JSON_parse ''{\"a\":1} and {\"b\":2}'' = Inl SyntaxError
   \<and> jsonMatch ''{\"a\":1} and {\"b\":2}'' = Some ''{\"a\":1} and {\"b\":2}''"
proof (intro conjI)
  show "extractJson sample_JSON_parse (fence @ ''not json'' @ fence @ '' {\"a\":1}'') = Inl SyntaxError"
    by code_simp
  show "jsonMatch (fence @ ''not json'' @ fence @ '' {\"a\":1}'') = Some ''{\"a\":1}''"
    by code_simp
  show "sample_JSON_parse ''{\"a\":1}'' = Some [(''a'', 1)]"
    by (simp add: sample_JSON_parse_def)
  show "extractJson sample_JSON_parse ''{\"a\":1} and {\"b\":2}'' = Inl SyntaxError"
    by code_simp
  show "jsonMatch ''{\"a\":1} and {\"b\":2}'' = Some ''{\"a\":1} and {\"b\":2}''"
    by code_simp
qed

end
